theory Spec2Isabelle
  imports Main
begin

section \<open>Python values, errors and string formatting\<close>

text \<open>
  The exceptions that the code of \<^verbatim>\<open>tensor_2d.py\<close> raises itself, or lets escape from
  the built-ins it calls; \<open>EngineError\<close> stands for whatever the generic tensor-network
  engine raises.
\<close>

datatype error =
    ValueError
  | TypeError
  | ZeroDivisionError
  | IndexError
  | KeyError
  | EngineError string

text \<open>
  The Python values that reach the lattice addressing functions: integers, strings,
  tuples and \<open>None\<close>.
\<close>

datatype pyval =
    PInt int
  | PStr string
  | PTuple "pyval list"
  | PNone

text \<open>An argument of \<^verbatim>\<open>str.format\<close>: after wrapping, an integer or a string.\<close>

datatype fmt_arg =
    FInt int
  | FStr string

definition digit_char :: "nat \<Rightarrow> char" where
  "digit_char d = ''0123456789'' ! d"

fun digits :: "nat \<Rightarrow> string" where
  "digits n = (if n < 10 then [digit_char n] else digits (n div 10) @ [digit_char (n mod 10)])"

definition str_int :: "int \<Rightarrow> string" where
  "str_int i = (if i < 0 then CHR ''-'' # digits (nat (- i)) else digits (nat i))"

definition str_arg :: "fmt_arg \<Rightarrow> string" where
  "str_arg a = (case a of FInt i \<Rightarrow> str_int i | FStr s \<Rightarrow> s)"

text \<open>
  \<^verbatim>\<open>template.format(*args)\<close> for templates whose replacement fields are the
  automatically numbered \<^verbatim>\<open>{}\<close>, as in all the defaults of the source
  (\<^verbatim>\<open>'I{},{}'\<close>, \<^verbatim>\<open>'ROW{}'\<close>, \<^verbatim>\<open>'COL{}'\<close>, \<^verbatim>\<open>'k{},{}'\<close>): each field takes the
  next argument, a field with no argument left raises IndexError, and arguments left
  over are ignored.
\<close>

fun py_format :: "string \<Rightarrow> fmt_arg list \<Rightarrow> error + string" where
  "py_format [] args = Inr []"
| "py_format [c] args = Inr [c]"
| "py_format (c # d # rest) args =
     (if c = CHR ''{'' \<and> d = CHR ''}'' then
        (case args of
           [] \<Rightarrow> Inl IndexError
         | a # as \<Rightarrow>
             (case py_format rest as of
                Inl e \<Rightarrow> Inl e
              | Inr s \<Rightarrow> Inr (str_arg a @ s)))
      else
        (case py_format (d # rest) args of
           Inl e \<Rightarrow> Inl e
         | Inr s \<Rightarrow> Inr (c # s)))"

section \<open>Lattice addressing\<close>

text \<open>
  The lattice metadata of a \<^verbatim>\<open>TensorNetwork2D\<close>: the extents and the naming templates
  (\<^verbatim>\<open>_Lx\<close>, \<^verbatim>\<open>_Ly\<close>, \<^verbatim>\<open>_site_tag_id\<close>, \<^verbatim>\<open>_row_tag_id\<close>, \<^verbatim>\<open>_col_tag_id\<close>,
  and \<^verbatim>\<open>_site_ind_id\<close> of the vector type).
\<close>

record lattice =
  Lx :: nat
  Ly :: nat
  site_tag_id :: string
  row_tag_id :: string
  col_tag_id :: string
  site_ind_id :: string

text \<open>
  The step \<^verbatim>\<open>if not isinstance(i, str): i = i % self.Lx\<close>: a string passes unchanged,
  an integer is reduced (Python's \<^verbatim>\<open>%\<close> is the floor modulus, as \<open>mod\<close> on \<open>int\<close>; a
  zero modulus raises), and \<^verbatim>\<open>%\<close> on a tuple or \<open>None\<close> raises TypeError.
\<close>

definition wrap_index :: "pyval \<Rightarrow> nat \<Rightarrow> error + fmt_arg" where
  "wrap_index x n =
     (case x of
        PStr s \<Rightarrow> Inr (FStr s)
      | PInt i \<Rightarrow> (if n = 0 then Inl ZeroDivisionError else Inr (FInt (i mod int n)))
      | PTuple xs \<Rightarrow> Inl TypeError
      | PNone \<Rightarrow> Inl TypeError)"

definition site_tag :: "lattice \<Rightarrow> pyval \<Rightarrow> pyval \<Rightarrow> error + string" where
  "site_tag L i j =
     (case wrap_index i (Lx L) of
        Inl e \<Rightarrow> Inl e
      | Inr a \<Rightarrow>
          (case wrap_index j (Ly L) of
             Inl e \<Rightarrow> Inl e
           | Inr b \<Rightarrow> py_format (site_tag_id L) [a, b]))"

definition row_tag :: "lattice \<Rightarrow> pyval \<Rightarrow> error + string" where
  "row_tag L i =
     (case wrap_index i (Lx L) of
        Inl e \<Rightarrow> Inl e
      | Inr a \<Rightarrow> py_format (row_tag_id L) [a])"

definition col_tag :: "lattice \<Rightarrow> pyval \<Rightarrow> error + string" where
  "col_tag L j =
     (case wrap_index j (Ly L) of
        Inl e \<Rightarrow> Inl e
      | Inr b \<Rightarrow> py_format (col_tag_id L) [b])"

definition site_ind :: "lattice \<Rightarrow> pyval \<Rightarrow> pyval \<Rightarrow> error + string" where
  "site_ind L i j =
     (case wrap_index i (Lx L) of
        Inl e \<Rightarrow> Inl e
      | Inr a \<Rightarrow>
          (case wrap_index j (Ly L) of
             Inl e \<Rightarrow> Inl e
           | Inr b \<Rightarrow> py_format (site_ind_id L) [a, b]))"

text \<open>
  The built-in \<^verbatim>\<open>int(x)\<close>: the identity on integers, TypeError on a tuple or
  \<open>None\<close>. On a string Python parses a literal; the parser is the parameter \<open>parse\<close>
  (\<open>None\<close> where \<^verbatim>\<open>int\<close> raises ValueError).
\<close>

definition py_int :: "(string \<Rightarrow> int option) \<Rightarrow> pyval \<Rightarrow> error + int" where
  "py_int parse x =
     (case x of
        PInt i \<Rightarrow> Inr i
      | PStr s \<Rightarrow> (case parse s of None \<Rightarrow> Inl ValueError | Some i \<Rightarrow> Inr i)
      | PTuple xs \<Rightarrow> Inl TypeError
      | PNone \<Rightarrow> Inl TypeError)"

text \<open>
  \<^verbatim>\<open>i, j = map(int, x)\<close> for \<open>x\<close> that is not a string: \<open>map\<close> needs an iterable, the
  unpacking converts the elements one by one, and asks for a third element before it
  reports too many values.
\<close>

definition unpack_ints :: "(string \<Rightarrow> int option) \<Rightarrow> pyval \<Rightarrow> error + (int \<times> int)" where
  "unpack_ints parse x =
     (case x of
        PTuple [] \<Rightarrow> Inl ValueError
      | PTuple [a] \<Rightarrow> (case py_int parse a of Inl e \<Rightarrow> Inl e | Inr i \<Rightarrow> Inl ValueError)
      | PTuple (a # b # rest) \<Rightarrow>
          (case py_int parse a of
             Inl e \<Rightarrow> Inl e
           | Inr i \<Rightarrow>
               (case py_int parse b of
                  Inl e \<Rightarrow> Inl e
                | Inr j \<Rightarrow>
                    (case rest of
                       [] \<Rightarrow> Inr (i, j)
                     | c # cs \<Rightarrow>
                         (case py_int parse c of
                            Inl e \<Rightarrow> Inl e
                          | Inr k \<Rightarrow> Inl ValueError))))
      | PInt i \<Rightarrow> Inl TypeError
      | PStr s \<Rightarrow> Inl TypeError
      | PNone \<Rightarrow> Inl TypeError)"

text \<open>
  \<^verbatim>\<open>maybe_convert_coo\<close>: the call of \<^verbatim>\<open>site_tag\<close> stands inside the \<^verbatim>\<open>try\<close>, so a
  ValueError or TypeError it raised would be swallowed too; any other exception
  escapes.
\<close>

definition maybe_convert_coo ::
  "(string \<Rightarrow> int option) \<Rightarrow> lattice \<Rightarrow> pyval \<Rightarrow> error + pyval" where
  "maybe_convert_coo parse L x =
     (case x of
        PStr s \<Rightarrow> Inr x
      | _ \<Rightarrow>
          (case unpack_ints parse x of
             Inl e \<Rightarrow> (if e = ValueError \<or> e = TypeError then Inr x else Inl e)
           | Inr (i, j) \<Rightarrow>
               (case site_tag L (PInt i) (PInt j) of
                  Inr t \<Rightarrow> Inr (PStr t)
                | Inl e \<Rightarrow> (if e = ValueError \<or> e = TypeError then Inr x else Inl e))))"

text \<open>
  \<^verbatim>\<open>_get_tids_from_tags\<close> and \<^verbatim>\<open>__getitem__\<close> delegate to the generic
  \<^verbatim>\<open>TensorNetwork\<close> methods, which are parameters here (\<open>super\<close>).
\<close>

definition get_tids_from_tags ::
  "(string \<Rightarrow> int option) \<Rightarrow> (pyval \<Rightarrow> string \<Rightarrow> error + 'r) \<Rightarrow> lattice \<Rightarrow> pyval \<Rightarrow> string
     \<Rightarrow> error + 'r" where
  "get_tids_from_tags parse super L tags which =
     (case maybe_convert_coo parse L tags of
        Inl e \<Rightarrow> Inl e
      | Inr t \<Rightarrow> super t which)"

definition getitem ::
  "(string \<Rightarrow> int option) \<Rightarrow> (pyval \<Rightarrow> error + 'r) \<Rightarrow> lattice \<Rightarrow> pyval \<Rightarrow> error + 'r" where
  "getitem parse super L key =
     (case maybe_convert_coo parse L key of
        Inl e \<Rightarrow> Inl e
      | Inr t \<Rightarrow> super t)"

section \<open>The generic engine and the network state\<close>

text \<open>
  The tensors are owned by the generic engine (\<^verbatim>\<open>tensor_core\<close>), which is not part of
  these sources. A network is therefore represented by the calls that have been made
  on it since it was handed over: two networks with the same history are the same
  network. The engine itself is an oracle over that history: whether a call raises, and
  how many tensors carry a tag (\<^verbatim>\<open>len(self.tag_map[tag])\<close>).
\<close>

type_synonym coo = "int \<times> int"

type_synonym kwargs = "(string \<times> pyval) list"

datatype call =
    CanonizeBetween coo coo kwargs
  | CompressBetween coo coo kwargs
  | ContractTags string string
  | ContractBetween string string string
  | ContractSite coo
  | DropTags coo string
  | ContractAll

type_synonym network = "call list"

record engine =
  raises :: "network \<Rightarrow> call \<Rightarrow> error option"
  tag_map_len :: "network \<Rightarrow> string \<Rightarrow> error + nat"

text \<open>A method that mutates the network in place and may raise.\<close>

type_synonym 'a prog = "network \<Rightarrow> (error + 'a) \<times> network"

definition pret :: "'a \<Rightarrow> 'a prog" where
  "pret x h = (Inr x, h)"

definition lift :: "error + 'a \<Rightarrow> 'a prog" where
  "lift r h = (r, h)"

definition pbind :: "'a prog \<Rightarrow> ('a \<Rightarrow> 'b prog) \<Rightarrow> 'b prog" where
  "pbind m f h = (case m h of (Inl e, h') \<Rightarrow> (Inl e, h') | (Inr x, h') \<Rightarrow> f x h')"

definition pseq :: "unit prog \<Rightarrow> 'b prog \<Rightarrow> 'b prog" where
  "pseq m n = pbind m (\<lambda>u. n)"

primrec for_each :: "'a list \<Rightarrow> ('a \<Rightarrow> unit prog) \<Rightarrow> unit prog" where
  "for_each [] body = pret ()"
| "for_each (x # xs) body = pseq (body x) (for_each xs body)"

definition engine_call :: "engine \<Rightarrow> call \<Rightarrow> unit prog" where
  "engine_call E c h =
     (case raises E h c of
        None \<Rightarrow> (Inr (), h @ [c])
      | Some e \<Rightarrow> (Inl e, h @ [c]))"

definition tag_map_length :: "engine \<Rightarrow> string \<Rightarrow> nat prog" where
  "tag_map_length E t h = (tag_map_len E h t, h)"

text \<open>\<^verbatim>\<open>range(a, b)\<close> and \<^verbatim>\<open>range(a, b, -1)\<close>.\<close>

definition range_up :: "int \<Rightarrow> int \<Rightarrow> int list" where
  "range_up a b = [a..b - 1]"

definition range_down :: "int \<Rightarrow> int \<Rightarrow> int list" where
  "range_down a b = rev [b + 1..a]"

text \<open>A \<^verbatim>\<open>dict\<close> in insertion order: item assignment, \<^verbatim>\<open>setdefault\<close> and lookup.\<close>

fun dict_set :: "'k \<Rightarrow> 'v \<Rightarrow> ('k \<times> 'v) list \<Rightarrow> ('k \<times> 'v) list" where
  "dict_set k v [] = [(k, v)]"
| "dict_set k v ((k', v') # m) =
     (if k = k' then (k, v) # m else (k', v') # dict_set k v m)"

definition setdefault :: "'k \<Rightarrow> 'v \<Rightarrow> ('k \<times> 'v) list \<Rightarrow> ('k \<times> 'v) list" where
  "setdefault k v m = (case map_of m k of None \<Rightarrow> m @ [(k, v)] | Some w \<Rightarrow> m)"

definition dict_get :: "('k \<times> 'v) list \<Rightarrow> 'k \<Rightarrow> error + 'v" where
  "dict_get m k = (case map_of m k of None \<Rightarrow> Inl KeyError | Some v \<Rightarrow> Inr v)"

text \<open>
  Modelled from the spec: \<^verbatim>\<open>check_opt\<close> of \<^verbatim>\<open>quimb.utils\<close> is missing from the sources.
  The spec: a direction string outside the recognized set must raise a configuration
  error.
\<close>

definition check_opt :: "string \<Rightarrow> string \<Rightarrow> string list \<Rightarrow> error + unit" where
  "check_opt name v valid = (if v \<in> set valid then Inr () else Inl ValueError)"

section \<open>Canonicalization and compression of a row or column\<close>

definition canonize_row ::
  "engine \<Rightarrow> lattice \<Rightarrow> int \<Rightarrow> string \<Rightarrow> (int \<times> int) option \<Rightarrow> kwargs \<Rightarrow> unit prog" where
  "canonize_row E L i sweep yrange canonize_opts =
     pseq (lift (check_opt ''sweep'' sweep [''right'', ''left'']))
       (let yr = (case yrange of None \<Rightarrow> (0, int (Ly L) - 1) | Some r \<Rightarrow> r) in
        if sweep = ''right'' then
          for_each (range_up (min (fst yr) (snd yr)) (max (fst yr) (snd yr)))
            (\<lambda>j. engine_call E (CanonizeBetween (i, j) (i, j + 1) canonize_opts))
        else
          for_each (range_down (max (fst yr) (snd yr)) (min (fst yr) (snd yr)))
            (\<lambda>j. engine_call E (CanonizeBetween (i, j) (i, j - 1) canonize_opts)))"

definition canonize_column ::
  "engine \<Rightarrow> lattice \<Rightarrow> int \<Rightarrow> string \<Rightarrow> (int \<times> int) option \<Rightarrow> kwargs \<Rightarrow> unit prog" where
  "canonize_column E L j sweep xrange canonize_opts =
     pseq (lift (check_opt ''sweep'' sweep [''up'', ''down'']))
       (let xr = (case xrange of None \<Rightarrow> (0, int (Lx L) - 1) | Some r \<Rightarrow> r) in
        if sweep = ''up'' then
          for_each (range_up (min (fst xr) (snd xr)) (max (fst xr) (snd xr)))
            (\<lambda>i. engine_call E (CanonizeBetween (i, j) (i + 1, j) canonize_opts))
        else
          for_each (range_down (max (fst xr) (snd xr)) (min (fst xr) (snd xr)))
            (\<lambda>i. engine_call E (CanonizeBetween (i, j) (i - 1, j) canonize_opts)))"

definition compress_row ::
  "engine \<Rightarrow> lattice \<Rightarrow> int \<Rightarrow> string \<Rightarrow> (int \<times> int) option \<Rightarrow> kwargs \<Rightarrow> unit prog" where
  "compress_row E L i sweep yrange compress_opts =
     pseq (lift (check_opt ''sweep'' sweep [''right'', ''left'']))
       (let opts = setdefault ''absorb'' (PStr ''right'') compress_opts;
            yr = (case yrange of None \<Rightarrow> (0, int (Ly L) - 1) | Some r \<Rightarrow> r) in
        if sweep = ''right'' then
          for_each (range_up (min (fst yr) (snd yr)) (max (fst yr) (snd yr)))
            (\<lambda>j. engine_call E (CompressBetween (i, j) (i, j + 1) opts))
        else
          for_each (range_down (max (fst yr) (snd yr)) (min (fst yr) (snd yr)))
            (\<lambda>j. engine_call E (CompressBetween (i, j) (i, j - 1) opts)))"

definition compress_column ::
  "engine \<Rightarrow> lattice \<Rightarrow> int \<Rightarrow> string \<Rightarrow> (int \<times> int) option \<Rightarrow> kwargs \<Rightarrow> unit prog" where
  "compress_column E L j sweep xrange compress_opts =
     pseq (lift (check_opt ''sweep'' sweep [''up'', ''down'']))
       (let xr = (case xrange of None \<Rightarrow> (0, int (Lx L) - 1) | Some r \<Rightarrow> r) in
        if sweep = ''up'' then
          (let opts = setdefault ''absorb'' (PStr ''right'') compress_opts in
           for_each (range_up (min (fst xr) (snd xr)) (max (fst xr) (snd xr)))
             (\<lambda>i. engine_call E (CompressBetween (i, j) (i + 1, j) opts)))
        else
          (let opts = setdefault ''absorb'' (PStr ''left'') compress_opts in
           for_each (range_down (max (fst xr) (snd xr)) (min (fst xr) (snd xr)))
             (\<lambda>i. engine_call E (CompressBetween (i - 1, j) (i, j) opts))))"

section \<open>The directional boundary-absorption steps\<close>

text \<open>\<^verbatim>\<open>min(xrange)\<close> and \<^verbatim>\<open>max(xrange)\<close> of a two-element range.\<close>

definition min_of :: "int \<times> int \<Rightarrow> int" where
  "min_of r = min (fst r) (snd r)"

definition max_of :: "int \<times> int \<Rightarrow> int" where
  "max_of r = max (fst r) (snd r)"

text \<open>
  The body of the inner loop of the four \<^verbatim>\<open>_single\<close> functions: the two site tags, left
  to right, then \<^verbatim>\<open>contract_((tag1, tag2), which='any')\<close> when no layer tag is given
  and \<^verbatim>\<open>contract_between(tag1, (tag2, layer_tag))\<close> otherwise.
\<close>

definition absorb_site :: "engine \<Rightarrow> lattice \<Rightarrow> string option \<Rightarrow> coo \<Rightarrow> coo \<Rightarrow> unit prog" where
  "absorb_site E L layer_tag c1 c2 =
     pbind (lift (site_tag L (PInt (fst c1)) (PInt (snd c1)))) (\<lambda>tag1.
     pbind (lift (site_tag L (PInt (fst c2)) (PInt (snd c2)))) (\<lambda>tag2.
       case layer_tag of
         None \<Rightarrow> engine_call E (ContractTags tag1 tag2)
       | Some lt \<Rightarrow> engine_call E (ContractBetween tag1 tag2 lt)))"

text \<open>
  The body of the last loop of the four \<^verbatim>\<open>_multi\<close> functions: when more than one tensor
  carries the inner site tag, the tag is dropped from the tensor at the outer site.
\<close>

definition drop_inner_tag :: "engine \<Rightarrow> lattice \<Rightarrow> coo \<Rightarrow> coo \<Rightarrow> unit prog" where
  "drop_inner_tag E L outer inner =
     pbind (lift (site_tag L (PInt (fst inner)) (PInt (snd inner)))) (\<lambda>inner_tag.
     pbind (tag_map_length E inner_tag) (\<lambda>n.
       if n > 1 then engine_call E (DropTags outer inner_tag) else pret ()))"

text \<open>
  \<^verbatim>\<open>tn = self if inplace else self.copy()\<close> ... \<^verbatim>\<open>return tn\<close>: the body runs on \<open>tn\<close>;
  the network of the caller changes only when \<open>inplace\<close> is set.
\<close>

definition with_inplace :: "bool \<Rightarrow> unit prog \<Rightarrow> network prog" where
  "with_inplace inplace body h =
     (case body h of
        (Inl e, h') \<Rightarrow> (Inl e, if inplace then h' else h)
      | (Inr u, h') \<Rightarrow> (Inr h', if inplace then h' else h))"

definition contract_boundary_from_bottom_single ::
  "engine \<Rightarrow> lattice \<Rightarrow> int \<times> int \<Rightarrow> int \<times> int \<Rightarrow> bool \<Rightarrow> string \<Rightarrow> string option \<Rightarrow> kwargs
     \<Rightarrow> unit prog" where
  "contract_boundary_from_bottom_single E L xrange yrange canonize compress_sweep layer_tag
       compress_opts =
     pbind (lift (dict_get [(''left'', ''right''), (''right'', ''left'')] compress_sweep))
       (\<lambda>canonize_sweep.
          for_each (range_up (min_of xrange) (max_of xrange)) (\<lambda>i.
            pseq (for_each (range_up (min_of yrange) (max_of yrange + 1)) (\<lambda>j.
                    absorb_site E L layer_tag (i, j) (i + 1, j)))
           (pseq (if canonize then canonize_row E L i canonize_sweep (Some yrange) []
                  else pret ())
                 (compress_row E L i compress_sweep (Some yrange) compress_opts))))"

definition contract_boundary_from_bottom_multi ::
  "engine \<Rightarrow> lattice \<Rightarrow> int \<times> int \<Rightarrow> int \<times> int \<Rightarrow> string list \<Rightarrow> bool \<Rightarrow> string \<Rightarrow> kwargs
     \<Rightarrow> unit prog" where
  "contract_boundary_from_bottom_multi E L xrange yrange layer_tags canonize compress_sweep
       compress_opts =
     for_each (range_up (min_of xrange) (max_of xrange)) (\<lambda>i.
       pseq (for_each (range_up (min_of yrange) (max_of yrange + 1)) (\<lambda>j.
               engine_call E (ContractSite (i, j))))
            (for_each layer_tags (\<lambda>tag.
               pseq (contract_boundary_from_bottom_single E L (i, i + 1) yrange canonize
                       compress_sweep (Some tag) compress_opts)
                    (for_each (range_up (min_of yrange) (max_of yrange + 1)) (\<lambda>j.
                       drop_inner_tag E L (i, j) (i + 1, j))))))"

definition contract_boundary_from_bottom ::
  "engine \<Rightarrow> lattice \<Rightarrow> int \<times> int \<Rightarrow> (int \<times> int) option \<Rightarrow> bool \<Rightarrow> string
     \<Rightarrow> string list option \<Rightarrow> bool \<Rightarrow> kwargs \<Rightarrow> network prog" where
  "contract_boundary_from_bottom E L xrange yrange canonize compress_sweep layer_tags inplace
       compress_opts =
     with_inplace inplace
       (let yr = (case yrange of None \<Rightarrow> (0, int (Ly L) - 1) | Some r \<Rightarrow> r) in
        case layer_tags of
          None \<Rightarrow>
            contract_boundary_from_bottom_single E L xrange yr canonize compress_sweep None
              compress_opts
        | Some lts \<Rightarrow>
            contract_boundary_from_bottom_multi E L xrange yr lts canonize compress_sweep
              compress_opts)"

definition contract_boundary_from_top_single ::
  "engine \<Rightarrow> lattice \<Rightarrow> int \<times> int \<Rightarrow> int \<times> int \<Rightarrow> bool \<Rightarrow> string \<Rightarrow> string option \<Rightarrow> kwargs
     \<Rightarrow> unit prog" where
  "contract_boundary_from_top_single E L xrange yrange canonize compress_sweep layer_tag
       compress_opts =
     pbind (lift (dict_get [(''left'', ''right''), (''right'', ''left'')] compress_sweep))
       (\<lambda>canonize_sweep.
          for_each (range_down (max_of xrange) (min_of xrange)) (\<lambda>i.
            pseq (for_each (range_up (min_of yrange) (max_of yrange + 1)) (\<lambda>j.
                    absorb_site E L layer_tag (i, j) (i - 1, j)))
           (pseq (if canonize then canonize_row E L i canonize_sweep (Some yrange) []
                  else pret ())
                 (compress_row E L i compress_sweep (Some yrange) compress_opts))))"

definition contract_boundary_from_top_multi ::
  "engine \<Rightarrow> lattice \<Rightarrow> int \<times> int \<Rightarrow> int \<times> int \<Rightarrow> string list \<Rightarrow> bool \<Rightarrow> string \<Rightarrow> kwargs
     \<Rightarrow> unit prog" where
  "contract_boundary_from_top_multi E L xrange yrange layer_tags canonize compress_sweep
       compress_opts =
     for_each (range_down (max_of xrange) (min_of xrange)) (\<lambda>i.
       pseq (for_each (range_up (min_of yrange) (max_of yrange + 1)) (\<lambda>j.
               engine_call E (ContractSite (i, j))))
            (for_each layer_tags (\<lambda>tag.
               pseq (contract_boundary_from_top_single E L (i, i - 1) yrange canonize
                       compress_sweep (Some tag) compress_opts)
                    (for_each (range_up (min_of yrange) (max_of yrange + 1)) (\<lambda>j.
                       drop_inner_tag E L (i, j) (i - 1, j))))))"

definition contract_boundary_from_top ::
  "engine \<Rightarrow> lattice \<Rightarrow> int \<times> int \<Rightarrow> (int \<times> int) option \<Rightarrow> bool \<Rightarrow> string
     \<Rightarrow> string list option \<Rightarrow> bool \<Rightarrow> kwargs \<Rightarrow> network prog" where
  "contract_boundary_from_top E L xrange yrange canonize compress_sweep layer_tags inplace
       compress_opts =
     with_inplace inplace
       (let yr = (case yrange of None \<Rightarrow> (0, int (Ly L) - 1) | Some r \<Rightarrow> r) in
        case layer_tags of
          None \<Rightarrow>
            contract_boundary_from_top_single E L xrange yr canonize compress_sweep None
              compress_opts
        | Some lts \<Rightarrow>
            contract_boundary_from_top_multi E L xrange yr lts canonize compress_sweep
              compress_opts)"

definition contract_boundary_from_left_single ::
  "engine \<Rightarrow> lattice \<Rightarrow> int \<times> int \<Rightarrow> int \<times> int \<Rightarrow> bool \<Rightarrow> string \<Rightarrow> string option \<Rightarrow> kwargs
     \<Rightarrow> unit prog" where
  "contract_boundary_from_left_single E L yrange xrange canonize compress_sweep layer_tag
       compress_opts =
     pbind (lift (dict_get [(''up'', ''down''), (''down'', ''up'')] compress_sweep))
       (\<lambda>canonize_sweep.
          for_each (range_up (min_of yrange) (max_of yrange)) (\<lambda>j.
            pseq (for_each (range_up (min_of xrange) (max_of xrange + 1)) (\<lambda>i.
                    absorb_site E L layer_tag (i, j) (i, j + 1)))
           (pseq (if canonize then canonize_column E L j canonize_sweep (Some xrange) []
                  else pret ())
                 (compress_column E L j compress_sweep (Some xrange) compress_opts))))"

definition contract_boundary_from_left_multi ::
  "engine \<Rightarrow> lattice \<Rightarrow> int \<times> int \<Rightarrow> int \<times> int \<Rightarrow> string list \<Rightarrow> bool \<Rightarrow> string \<Rightarrow> kwargs
     \<Rightarrow> unit prog" where
  "contract_boundary_from_left_multi E L yrange xrange layer_tags canonize compress_sweep
       compress_opts =
     for_each (range_up (min_of yrange) (max_of yrange)) (\<lambda>j.
       pseq (for_each (range_up (min_of xrange) (max_of xrange + 1)) (\<lambda>i.
               engine_call E (ContractSite (i, j))))
            (for_each layer_tags (\<lambda>tag.
               pseq (contract_boundary_from_left_single E L (j, j + 1) xrange canonize
                       compress_sweep (Some tag) compress_opts)
                    (for_each (range_up (min_of xrange) (max_of xrange + 1)) (\<lambda>i.
                       drop_inner_tag E L (i, j) (i, j + 1))))))"

definition contract_boundary_from_left ::
  "engine \<Rightarrow> lattice \<Rightarrow> int \<times> int \<Rightarrow> (int \<times> int) option \<Rightarrow> bool \<Rightarrow> string
     \<Rightarrow> string list option \<Rightarrow> bool \<Rightarrow> kwargs \<Rightarrow> network prog" where
  "contract_boundary_from_left E L yrange xrange canonize compress_sweep layer_tags inplace
       compress_opts =
     with_inplace inplace
       (let xr = (case xrange of None \<Rightarrow> (0, int (Lx L) - 1) | Some r \<Rightarrow> r) in
        case layer_tags of
          None \<Rightarrow>
            contract_boundary_from_left_single E L yrange xr canonize compress_sweep None
              compress_opts
        | Some lts \<Rightarrow>
            contract_boundary_from_left_multi E L yrange xr lts canonize compress_sweep
              compress_opts)"

definition contract_boundary_from_right_single ::
  "engine \<Rightarrow> lattice \<Rightarrow> int \<times> int \<Rightarrow> int \<times> int \<Rightarrow> bool \<Rightarrow> string \<Rightarrow> string option \<Rightarrow> kwargs
     \<Rightarrow> unit prog" where
  "contract_boundary_from_right_single E L yrange xrange canonize compress_sweep layer_tag
       compress_opts =
     pbind (lift (dict_get [(''up'', ''down''), (''down'', ''up'')] compress_sweep))
       (\<lambda>canonize_sweep.
          for_each (range_down (max_of yrange) (min_of yrange)) (\<lambda>j.
            pseq (for_each (range_up (min_of xrange) (max_of xrange + 1)) (\<lambda>i.
                    absorb_site E L layer_tag (i, j) (i, j - 1)))
           (pseq (if canonize then canonize_column E L j canonize_sweep (Some xrange) []
                  else pret ())
                 (compress_column E L j compress_sweep (Some xrange) compress_opts))))"

definition contract_boundary_from_right_multi ::
  "engine \<Rightarrow> lattice \<Rightarrow> int \<times> int \<Rightarrow> int \<times> int \<Rightarrow> string list \<Rightarrow> bool \<Rightarrow> string \<Rightarrow> kwargs
     \<Rightarrow> unit prog" where
  "contract_boundary_from_right_multi E L yrange xrange layer_tags canonize compress_sweep
       compress_opts =
     for_each (range_down (max_of yrange) (min_of yrange)) (\<lambda>j.
       pseq (for_each (range_up (min_of xrange) (max_of xrange + 1)) (\<lambda>i.
               engine_call E (ContractSite (i, j))))
            (for_each layer_tags (\<lambda>tag.
               pseq (contract_boundary_from_right_single E L (j, j - 1) xrange canonize
                       compress_sweep (Some tag) compress_opts)
                    (for_each (range_up (min_of xrange) (max_of xrange + 1)) (\<lambda>i.
                       drop_inner_tag E L (i, j) (i, j - 1))))))"

definition contract_boundary_from_right ::
  "engine \<Rightarrow> lattice \<Rightarrow> int \<times> int \<Rightarrow> (int \<times> int) option \<Rightarrow> bool \<Rightarrow> string
     \<Rightarrow> string list option \<Rightarrow> bool \<Rightarrow> kwargs \<Rightarrow> network prog" where
  "contract_boundary_from_right E L yrange xrange canonize compress_sweep layer_tags inplace
       compress_opts =
     with_inplace inplace
       (let xr = (case xrange of None \<Rightarrow> (0, int (Lx L) - 1) | Some r \<Rightarrow> r) in
        case layer_tags of
          None \<Rightarrow>
            contract_boundary_from_right_single E L yrange xr canonize compress_sweep None
              compress_opts
        | Some lts \<Rightarrow>
            contract_boundary_from_right_multi E L yrange xr lts canonize compress_sweep
              compress_opts)"

section \<open>The boundary sweep scheduler\<close>

text \<open>
  The arguments of \<^verbatim>\<open>contract_boundary\<close>. Of \<^verbatim>\<open>boundary_contract_opts\<close> the key
  \<^verbatim>\<open>canonize\<close> (default \<open>True\<close>) binds the parameter of the directional functions and the
  other keys reach them as \<^verbatim>\<open>compress_opts\<close>.
\<close>

record cb_config =
  around :: "coo list option"
  layer_tags :: "string list option"
  max_separation :: int
  sequence :: string
  bottom0 :: "int option"
  top0 :: "int option"
  left0 :: "int option"
  right0 :: "int option"
  inplace :: bool
  canonize :: bool
  compress_opts :: kwargs

text \<open>The bounding box of the protected region; \<^verbatim>\<open>min\<close> of no coordinate raises.\<close>

record stop_box =
  stop_i_min :: int
  stop_i_max :: int
  stop_j_min :: int
  stop_j_max :: int

definition stop_region :: "coo list \<Rightarrow> error + stop_box" where
  "stop_region a =
     (case a of
        [] \<Rightarrow> Inl ValueError
      | c # cs \<Rightarrow>
          Inr \<lparr>stop_i_min = fold min (map fst cs) (fst c),
               stop_i_max = fold max (map fst cs) (fst c),
               stop_j_min = fold min (map snd cs) (snd c),
               stop_j_max = fold max (map snd cs) (snd c)\<rparr>)"

text \<open>
  The local variables of the loop: the frontier, the dictionary \<^verbatim>\<open>reached_stop\<close> and
  the network \<open>tn\<close>. Two counters are kept beside them: \<open>pos\<close>, the number of items
  drawn from \<^verbatim>\<open>cycle(sequence)\<close> so far, and \<open>steps\<close>, the number of directional
  absorptions that have returned.
\<close>

record sweep_state =
  bottom :: int
  top' :: int
  left :: int
  right :: int
  reached_stop :: "(char \<times> bool) list"
  tn :: network
  pos :: nat
  steps :: nat

datatype cb_result =
    RNetwork network
  | RContracted network

datatype loop_outcome =
    Continue sweep_state
  | Stop "error + cb_result" sweep_state

definition cb_init :: "lattice \<Rightarrow> cb_config \<Rightarrow> network \<Rightarrow> sweep_state" where
  "cb_init L C h =
     \<lparr>bottom = (case bottom0 C of None \<Rightarrow> 0 | Some b \<Rightarrow> b),
      top' = (case top0 C of None \<Rightarrow> int (Lx L) - 1 | Some t \<Rightarrow> t),
      left = (case left0 C of None \<Rightarrow> 0 | Some l \<Rightarrow> l),
      right = (case right0 C of None \<Rightarrow> int (Ly L) - 1 | Some r \<Rightarrow> r),
      reached_stop = fold (\<lambda>direction m. dict_set direction False m) (sequence C) [],
      tn = h, pos = 0, steps = 0\<rparr>"

text \<open>
  The \<^verbatim>\<open>if\<close>/\<^verbatim>\<open>elif\<close> chain over the direction: absorb one line and move the edge,
  or record that the protected region is reached; any other letter raises.
\<close>

definition cb_visit ::
  "engine \<Rightarrow> lattice \<Rightarrow> cb_config \<Rightarrow> stop_box option \<Rightarrow> char \<Rightarrow> sweep_state
     \<Rightarrow> (error + unit) \<times> sweep_state" where
  "cb_visit E L C stops direction s =
     (if direction = CHR ''b'' then
        (if (case stops of None \<Rightarrow> True | Some r \<Rightarrow> bottom s + 1 < stop_i_min r) then
           (case contract_boundary_from_bottom E L (bottom s, bottom s + 1)
                   (Some (left s, right s)) (canonize C) ''left'' (layer_tags C) True
                   (compress_opts C) (tn s) of
              (Inl e, h) \<Rightarrow> (Inl e, s\<lparr>tn := h\<rparr>)
            | (Inr n, h) \<Rightarrow> (Inr (), s\<lparr>bottom := bottom s + 1, tn := h, steps := steps s + 1\<rparr>))
         else (Inr (), s\<lparr>reached_stop := dict_set direction True (reached_stop s)\<rparr>))
      else if direction = CHR ''l'' then
        (if (case stops of None \<Rightarrow> True | Some r \<Rightarrow> left s + 1 < stop_j_min r) then
           (case contract_boundary_from_left E L (left s, left s + 1)
                   (Some (bottom s, top' s)) (canonize C) ''up'' (layer_tags C) True
                   (compress_opts C) (tn s) of
              (Inl e, h) \<Rightarrow> (Inl e, s\<lparr>tn := h\<rparr>)
            | (Inr n, h) \<Rightarrow> (Inr (), s\<lparr>left := left s + 1, tn := h, steps := steps s + 1\<rparr>))
         else (Inr (), s\<lparr>reached_stop := dict_set direction True (reached_stop s)\<rparr>))
      else if direction = CHR ''t'' then
        (if (case stops of None \<Rightarrow> True | Some r \<Rightarrow> top' s - 1 > stop_i_max r) then
           (case contract_boundary_from_top E L (top' s, top' s - 1)
                   (Some (left s, right s)) (canonize C) ''right'' (layer_tags C) True
                   (compress_opts C) (tn s) of
              (Inl e, h) \<Rightarrow> (Inl e, s\<lparr>tn := h\<rparr>)
            | (Inr n, h) \<Rightarrow> (Inr (), s\<lparr>top' := top' s - 1, tn := h, steps := steps s + 1\<rparr>))
         else (Inr (), s\<lparr>reached_stop := dict_set direction True (reached_stop s)\<rparr>))
      else if direction = CHR ''r'' then
        (if (case stops of None \<Rightarrow> True | Some r \<Rightarrow> right s - 1 > stop_j_max r) then
           (case contract_boundary_from_right E L (right s, right s - 1)
                   (Some (bottom s, top' s)) (canonize C) ''down'' (layer_tags C) True
                   (compress_opts C) (tn s) of
              (Inl e, h) \<Rightarrow> (Inl e, s\<lparr>tn := h\<rparr>)
            | (Inr n, h) \<Rightarrow> (Inr (), s\<lparr>right := right s - 1, tn := h, steps := steps s + 1\<rparr>))
         else (Inr (), s\<lparr>reached_stop := dict_set direction True (reached_stop s)\<rparr>))
      else (Inl ValueError, s))"

text \<open>
  \<^verbatim>\<open>tn.contract(all, optimize='auto-hq')\<close>: the exact contraction of everything that
  is left, which returns its result and leaves \<open>tn\<close> as it is.
\<close>

definition contract_all :: "engine \<Rightarrow> network \<Rightarrow> error + cb_result" where
  "contract_all E h =
     (case raises E h ContractAll of
        None \<Rightarrow> Inr (RContracted h)
      | Some e \<Rightarrow> Inl e)"

text \<open>The test \<^verbatim>\<open>thin_strip\<close>: one of the two spans is at most \<^verbatim>\<open>max_separation\<close>.\<close>

definition thin_strip :: "cb_config \<Rightarrow> sweep_state \<Rightarrow> bool" where
  "thin_strip C s =
     (top' s - bottom s \<le> max_separation C \<or> right s - left s \<le> max_separation C)"

text \<open>
  One pass through the body of \<^verbatim>\<open>for direction in cycle(sequence)\<close>. The cycle of an
  empty sequence yields nothing, so the loop is over at once and \<open>tn\<close> is returned.
\<close>

definition cb_step ::
  "engine \<Rightarrow> lattice \<Rightarrow> cb_config \<Rightarrow> stop_box option \<Rightarrow> sweep_state \<Rightarrow> loop_outcome" where
  "cb_step E L C stops s =
     (if sequence C = [] then Stop (Inr (RNetwork (tn s))) s
      else
        (case cb_visit E L C stops (sequence C ! (pos s mod length (sequence C))) s of
           (Inl e, s') \<Rightarrow> Stop (Inl e) s'
         | (Inr u, s') \<Rightarrow>
             (case stops of
                None \<Rightarrow>
                  (if thin_strip C s' then Stop (contract_all E (tn s')) s'
                   else Continue (s'\<lparr>pos := pos s' + 1\<rparr>))
              | Some r \<Rightarrow>
                  (if list_all snd (reached_stop s') then Stop (Inr (RNetwork (tn s'))) s'
                   else Continue (s'\<lparr>pos := pos s' + 1\<rparr>)))))"

text \<open>The loop, with fuel: \<open>None\<close> when the fuel runs out before the loop is left.\<close>

fun cb_loop ::
  "nat \<Rightarrow> engine \<Rightarrow> lattice \<Rightarrow> cb_config \<Rightarrow> stop_box option \<Rightarrow> sweep_state
     \<Rightarrow> ((error + cb_result) \<times> sweep_state) option" where
  "cb_loop 0 E L C stops s = None"
| "cb_loop (Suc n) E L C stops s =
     (case cb_step E L C stops s of
        Continue s' \<Rightarrow> cb_loop n E L C stops s'
      | Stop r s' \<Rightarrow> Some (r, s'))"

text \<open>The state after \<open>n\<close> passes through the body, while the loop is still running.\<close>

fun cb_iterate ::
  "nat \<Rightarrow> engine \<Rightarrow> lattice \<Rightarrow> cb_config \<Rightarrow> stop_box option \<Rightarrow> sweep_state
     \<Rightarrow> sweep_state option" where
  "cb_iterate 0 E L C stops s = Some s"
| "cb_iterate (Suc n) E L C stops s =
     (case cb_step E L C stops s of
        Continue s' \<Rightarrow> cb_iterate n E L C stops s'
      | Stop r s' \<Rightarrow> None)"

definition cb_stops :: "cb_config \<Rightarrow> error + stop_box option" where
  "cb_stops C =
     (case around C of
        None \<Rightarrow> Inr None
      | Some a \<Rightarrow> (case stop_region a of Inl e \<Rightarrow> Inl e | Inr r \<Rightarrow> Inr (Some r)))"

text \<open>
  \<^verbatim>\<open>contract_boundary\<close>: the result, and the network of the caller afterwards (changed
  only when \<open>inplace\<close> is set).
\<close>

definition contract_boundary ::
  "nat \<Rightarrow> engine \<Rightarrow> lattice \<Rightarrow> cb_config \<Rightarrow> network \<Rightarrow> ((error + cb_result) \<times> network) option" where
  "contract_boundary fuel E L C self =
     (case cb_stops C of
        Inl e \<Rightarrow> Some (Inl e, self)
      | Inr stops \<Rightarrow>
          (case cb_loop fuel E L C stops (cb_init L C self) of
             None \<Rightarrow> None
           | Some (r, s) \<Rightarrow> Some (r, if inplace C then tn s else self)))"

text \<open>The default arguments of \<^verbatim>\<open>contract_boundary\<close>.\<close>

definition cb_default :: cb_config where
  "cb_default =
     \<lparr>around = None, layer_tags = None, max_separation = 1, sequence = ''bltr'',
      bottom0 = None, top0 = None, left0 = None, right0 = None, inplace = False,
      canonize = True, compress_opts = []\<rparr>"

section \<open>The absorb option of a bond compression\<close>

text \<open>
  Modelled from the spec: \<^verbatim>\<open>compress_between\<close> belongs to the generic engine and is
  missing from the sources. The spec: the absorb policy says where the norm of the
  discarded weight is folded back in, and a right sweep, which calls
  \<^verbatim>\<open>compress_between((i, j), (i, j + 1), absorb='right')\<close>, absorbs into the right
  neighbour: \<^verbatim>\<open>'right'\<close> names the second of the two tensors of the call, and
  \<^verbatim>\<open>'left'\<close> the first.
\<close>

definition absorb_target :: "call \<Rightarrow> coo option" where
  "absorb_target c =
     (case c of
        CompressBetween c1 c2 opts \<Rightarrow>
          (case map_of opts ''absorb'' of
             Some (PStr a) \<Rightarrow>
               (if a = ''left'' then Some c1 else if a = ''right'' then Some c2 else None)
           | _ \<Rightarrow> None)
      | _ \<Rightarrow> None)"

section \<open>Notions used to state the properties of the sweep\<close>

text \<open>The frontier does not overlap itself.\<close>

definition frontier_ok :: "sweep_state \<Rightarrow> bool" where
  "frontier_ok s = (bottom s \<le> top' s \<and> left s \<le> right s)"

text \<open>Exactly one edge has moved, by one unit, toward the interior.\<close>

definition moved_one :: "sweep_state \<Rightarrow> sweep_state \<Rightarrow> bool" where
  "moved_one s s' =
     ((bottom s' = bottom s + 1 \<and> top' s' = top' s \<and> left s' = left s \<and> right s' = right s)
      \<or> (bottom s' = bottom s \<and> top' s' = top' s - 1 \<and> left s' = left s \<and> right s' = right s)
      \<or> (bottom s' = bottom s \<and> top' s' = top' s \<and> left s' = left s + 1 \<and> right s' = right s)
      \<or> (bottom s' = bottom s \<and> top' s' = top' s \<and> left s' = left s \<and> right s' = right s - 1))"

definition same_frontier :: "sweep_state \<Rightarrow> sweep_state \<Rightarrow> bool" where
  "same_frontier s s' =
     (bottom s' = bottom s \<and> top' s' = top' s \<and> left s' = left s \<and> right s' = right s)"

definition frontier_of :: "sweep_state \<Rightarrow> int \<times> int \<times> int \<times> int" where
  "frontier_of s = (bottom s, top' s, left s, right s)"

text \<open>A non-empty sequence of the four direction letters.\<close>

definition valid_sequence :: "string \<Rightarrow> bool" where
  "valid_sequence q = (q \<noteq> [] \<and> list_all (\<lambda>d. d \<in> set ''bltr'') q)"

text \<open>
  The distance of a state from the thin strip: zero on a thin strip, and otherwise the
  sum of what the two spans exceed \<^verbatim>\<open>max_separation\<close> by.
\<close>

definition sweep_measure :: "cb_config \<Rightarrow> sweep_state \<Rightarrow> int" where
  "sweep_measure C s =
     (if thin_strip C s then 0
      else (top' s - bottom s - max_separation C) + (right s - left s - max_separation C))"

text \<open>
  The starting rectangles from which the frontier cannot come to overlap itself:
  without a protected region, a rectangle more than one line high and wide and a
  non-negative \<^verbatim>\<open>max_separation\<close>; with one, a non-empty rectangle that the bounding
  box of the region meets.
\<close>

definition start_ok :: "cb_config \<Rightarrow> stop_box option \<Rightarrow> sweep_state \<Rightarrow> bool" where
  "start_ok C stops s =
     (case stops of
        None \<Rightarrow> 0 \<le> max_separation C \<and> bottom s < top' s \<and> left s < right s
      | Some r \<Rightarrow>
          bottom s \<le> top' s \<and> left s \<le> right s
          \<and> bottom s \<le> stop_i_max r \<and> stop_i_min r \<le> top' s
          \<and> left s \<le> stop_j_max r \<and> stop_j_min r \<le> right s)"

text \<open>
  What one visit of a direction does to the state: it raises and leaves the frontier,
  or records that the protected region is reached, or completes one absorption and
  moves one edge.
\<close>

definition visit_effect :: "stop_box option \<Rightarrow> sweep_state \<Rightarrow> error + unit \<Rightarrow> sweep_state \<Rightarrow> bool" where
  "visit_effect stops s r s' =
     (pos s' = pos s
      \<and> ((\<exists>e. r = Inl e \<and> steps s' = steps s \<and> same_frontier s s')
         \<or> (r = Inr () \<and> stops \<noteq> None \<and> steps s' = steps s \<and> same_frontier s s'
             \<and> tn s' = tn s)
         \<or> (r = Inr () \<and> steps s' = steps s + 1 \<and> moved_one s s'
             \<and> reached_stop s' = reached_stop s)))"

text \<open>
  A run of the loop without a protected region from state \<open>s\<close>: \<open>N\<close> passes, none
  of the first \<open>N - 1\<close> ending on a thin strip, the last one raising or ending on a thin
  strip and returning its exact contraction.
\<close>

definition thin_sweep ::
  "engine \<Rightarrow> lattice \<Rightarrow> cb_config \<Rightarrow> sweep_state \<Rightarrow> nat \<Rightarrow> error + cb_result \<Rightarrow> sweep_state \<Rightarrow> bool" where
  "thin_sweep E L C s N r s' =
     (1 \<le> N \<and> cb_loop N E L C None s = Some (r, s')
      \<and> int N \<le> max 1 (sweep_measure C s - 1)
      \<and> steps s' \<le> steps s + N
      \<and> (\<forall>k. 1 \<le> k \<and> k < N \<longrightarrow>
            (\<exists>sk. cb_iterate k E L C None s = Some sk \<and> \<not> thin_strip C sk
                  \<and> steps sk = steps s + k))
      \<and> ((\<exists>e. r = Inl e)
          \<or> (r = Inr (RContracted (tn s')) \<and> thin_strip C s' \<and> steps s' = steps s + N)))"

text \<open>
  The invariant of the loop without a protected region.
\<close>

definition none_inv :: "cb_config \<Rightarrow> sweep_state \<Rightarrow> bool" where
  "none_inv C s = (0 \<le> max_separation C \<and> bottom s < top' s \<and> left s < right s)"

text \<open>
  The invariant of the loop around a protected region with bounding box \<open>b\<close>.
\<close>

definition box_inv :: "stop_box \<Rightarrow> sweep_state \<Rightarrow> bool" where
  "box_inv b s =
     (stop_i_min b \<le> stop_i_max b \<and> stop_j_min b \<le> stop_j_max b
      \<and> bottom s \<le> top' s \<and> left s \<le> right s
      \<and> bottom s \<le> stop_i_max b \<and> stop_i_min b \<le> top' s
      \<and> left s \<le> stop_j_max b \<and> stop_j_min b \<le> right s)"

section \<open>Notions used to state what a sweep touches\<close>

text \<open>The engine never raises, and every tag is known to it.\<close>

definition engine_ok :: "engine \<Rightarrow> bool" where
  "engine_ok E =
     ((\<forall>h c. raises E h c = None) \<and> (\<forall>h t. \<exists>n. tag_map_len E h t = Inr n))"

text \<open>The lattice is not empty and its site tag template takes two arguments.\<close>

definition tags_ok :: "lattice \<Rightarrow> bool" where
  "tags_ok L =
     (0 < Lx L \<and> 0 < Ly L \<and> (\<forall>a b. \<exists>t. py_format (site_tag_id L) [a, b] = Inr t))"

text \<open>
  \<^verbatim>\<open>site_tags\<close>: the site tags of the lattice, row by row. A well-formed template gives
  every site a tag of its own.
\<close>

definition site_tags :: "lattice \<Rightarrow> (error + string) list" where
  "site_tags L =
     map (\<lambda>(i, j). site_tag L (PInt (int i)) (PInt (int j)))
       (List.product [0..<Lx L] [0..<Ly L])"

definition in_lattice :: "lattice \<Rightarrow> coo \<Rightarrow> bool" where
  "in_lattice L c = (0 \<le> fst c \<and> fst c < int (Lx L) \<and> 0 \<le> snd c \<and> snd c < int (Ly L))"

text \<open>The sites of the rows \<open>xrange\<close> and the columns \<open>yrange\<close> (both inclusive).\<close>

definition in_box :: "int \<times> int \<Rightarrow> int \<times> int \<Rightarrow> coo \<Rightarrow> bool" where
  "in_box xrange yrange c =
     (min_of xrange \<le> fst c \<and> fst c \<le> max_of xrange
      \<and> min_of yrange \<le> snd c \<and> snd c \<le> max_of yrange)"

text \<open>
  A call that names only sites with the property \<open>S\<close>, by coordinate or by site tag
  (the exact contraction of the whole network names them all).
\<close>

definition tag_within :: "lattice \<Rightarrow> (coo \<Rightarrow> bool) \<Rightarrow> string \<Rightarrow> bool" where
  "tag_within L S t = (\<exists>a. S a \<and> site_tag L (PInt (fst a)) (PInt (snd a)) = Inr t)"

definition call_within :: "lattice \<Rightarrow> (coo \<Rightarrow> bool) \<Rightarrow> call \<Rightarrow> bool" where
  "call_within L S c =
     (case c of
        CanonizeBetween a b opts \<Rightarrow> S a \<and> S b
      | CompressBetween a b opts \<Rightarrow> S a \<and> S b
      | ContractTags t1 t2 \<Rightarrow> tag_within L S t1 \<and> tag_within L S t2
      | ContractBetween t1 t2 lt \<Rightarrow> tag_within L S t1 \<and> tag_within L S t2
      | ContractSite a \<Rightarrow> S a
      | DropTags a t \<Rightarrow> S a \<and> tag_within L S t
      | ContractAll \<Rightarrow> False)"

text \<open>
  A call that names the site \<open>c0\<close> of the lattice: by a coordinate that wraps to it, or
  by its site tag.
\<close>

definition wrap_coo :: "lattice \<Rightarrow> coo \<Rightarrow> coo" where
  "wrap_coo L c = (fst c mod int (Lx L), snd c mod int (Ly L))"

definition touches :: "lattice \<Rightarrow> coo \<Rightarrow> call \<Rightarrow> bool" where
  "touches L c0 c =
     (case c of
        CanonizeBetween a b opts \<Rightarrow> wrap_coo L a = c0 \<or> wrap_coo L b = c0
      | CompressBetween a b opts \<Rightarrow> wrap_coo L a = c0 \<or> wrap_coo L b = c0
      | ContractTags t1 t2 \<Rightarrow>
          site_tag L (PInt (fst c0)) (PInt (snd c0)) = Inr t1
          \<or> site_tag L (PInt (fst c0)) (PInt (snd c0)) = Inr t2
      | ContractBetween t1 t2 lt \<Rightarrow>
          site_tag L (PInt (fst c0)) (PInt (snd c0)) = Inr t1
          \<or> site_tag L (PInt (fst c0)) (PInt (snd c0)) = Inr t2
      | ContractSite a \<Rightarrow> wrap_coo L a = c0
      | DropTags a t \<Rightarrow>
          wrap_coo L a = c0 \<or> site_tag L (PInt (fst c0)) (PInt (snd c0)) = Inr t
      | ContractAll \<Rightarrow> True)"

text \<open>
  A method that returns without raising, from every network, and makes only calls
  with the property \<open>P\<close>.
\<close>

definition runs :: "(call \<Rightarrow> bool) \<Rightarrow> 'a prog \<Rightarrow> bool" where
  "runs P m = (\<forall>h. \<exists>x new. m h = (Inr x, h @ new) \<and> list_all P new)"

section \<open>Notions used to state the sweep around one site\<close>

text \<open>
  The number of lines that each direction absorbs before it reaches the line next to
  the protected site \<open>c0\<close>, when the sweep starts from the full lattice.
\<close>

definition need_b :: "coo \<Rightarrow> nat" where
  "need_b c0 = nat (fst c0 - 1)"

definition need_t :: "lattice \<Rightarrow> coo \<Rightarrow> nat" where
  "need_t L c0 = nat (int (Lx L) - 2 - fst c0)"

definition need_l :: "coo \<Rightarrow> nat" where
  "need_l c0 = nat (snd c0 - 1)"

definition need_r :: "lattice \<Rightarrow> coo \<Rightarrow> nat" where
  "need_r L c0 = nat (int (Ly L) - 2 - snd c0)"

text \<open>
  The state of the sweep around the site \<open>c0\<close> with the default sequence, after \<open>k\<close>
  letters have been drawn: each direction has been visited \<open>(k + 3) div 4\<close>,
  \<open>(k + 2) div 4\<close>, \<open>(k + 1) div 4\<close> and \<open>k div 4\<close> times, has advanced on each visit
  while it still needed to, and has its flag set from the first visit that found it
  blocked; no call made so far names the site.
\<close>

definition around_closed :: "lattice \<Rightarrow> coo \<Rightarrow> network \<Rightarrow> nat \<Rightarrow> sweep_state \<Rightarrow> bool" where
  "around_closed L c0 h k s =
     (bottom s = int (min (need_b c0) ((k + 3) div 4))
      \<and> top' s = int (Lx L) - 1 - int (min (need_t L c0) ((k + 1) div 4))
      \<and> left s = int (min (need_l c0) ((k + 2) div 4))
      \<and> right s = int (Ly L) - 1 - int (min (need_r L c0) (k div 4))
      \<and> reached_stop s =
          [(CHR ''b'', need_b c0 < (k + 3) div 4), (CHR ''l'', need_l c0 < (k + 2) div 4),
           (CHR ''t'', need_t L c0 < (k + 1) div 4), (CHR ''r'', need_r L c0 < k div 4)]
      \<and> (\<exists>new. tn s = h @ new \<and> list_all (\<lambda>c. \<not> touches L c0 c) new))"

text \<open>The bounding box of the single coordinate \<open>c0\<close>.\<close>

definition site_box :: "coo \<Rightarrow> stop_box" where
  "site_box c0 =
     \<lparr>stop_i_min = fst c0, stop_i_max = fst c0, stop_j_min = snd c0, stop_j_max = snd c0\<rparr>"

text \<open>
  The lattice metadata that \<^verbatim>\<open>PEPS.__init__\<close> sets with its default templates.
\<close>

definition peps_lattice :: "nat \<Rightarrow> nat \<Rightarrow> lattice" where
  "peps_lattice lx ly =
     \<lparr>Lx = lx, Ly = ly, site_tag_id = ''I{},{}'', row_tag_id = ''ROW{}'',
      col_tag_id = ''COL{}'', site_ind_id = ''k{},{}''\<rparr>"

text \<open>An engine that never raises and reports one tensor for every tag.\<close>

definition quiet_engine :: engine where
  "quiet_engine = \<lparr>raises = (\<lambda>h c. None), tag_map_len = (\<lambda>h t. Inr 1)\<rparr>"

section \<open>Properties\<close>

lemma py_format_error: "py_format t args = Inl e \<Longrightarrow> e = IndexError"
  by (induction t args arbitrary: e rule: py_format.induct)
     (auto split: if_splits list.splits sum.splits)

lemma range_up_same: "range_up j j = []"
  by (simp add: range_up_def)

lemma range_down_same: "range_down j j = []"
  by (simp add: range_down_def)

text \<open>
  Claim C9. A sweep over the single-element range \<open>(j, j)\<close> makes no call to the engine:
  \<^verbatim>\<open>canonize_row\<close>, \<^verbatim>\<open>canonize_column\<close>, \<^verbatim>\<open>compress_row\<close> and
  \<^verbatim>\<open>compress_column\<close> return what the check of the sweep direction returns, and leave
  the network exactly as it was, whatever the engine, the row, the direction and the
  options.
\<close>

theorem single_element_range_noop:
  "canonize_row E L i sweep (Some (j, j)) opts h = (check_opt ''sweep'' sweep [''right'', ''left''], h)
   \<and> canonize_column E L i sweep (Some (j, j)) opts h = (check_opt ''sweep'' sweep [''up'', ''down''], h)
   \<and> compress_row E L i sweep (Some (j, j)) opts h = (check_opt ''sweep'' sweep [''right'', ''left''], h)
   \<and> compress_column E L i sweep (Some (j, j)) opts h = (check_opt ''sweep'' sweep [''up'', ''down''], h)"
  by (simp add: canonize_row_def canonize_column_def compress_row_def compress_column_def
      range_up_same range_down_same pseq_def pbind_def lift_def pret_def check_opt_def Let_def)

lemma site_tag_int_error:
  "0 < Lx L \<Longrightarrow> 0 < Ly L \<Longrightarrow> site_tag L (PInt i) (PInt j) = Inl e \<Longrightarrow> e = IndexError"
  by (auto simp: site_tag_def wrap_index_def dest: py_format_error)

text \<open>
  Claim C7. On a lattice with \<open>Lx, Ly > 0\<close>: the site, row and column tags of integer
  coordinates are the tags of the coordinates reduced modulo \<open>Lx\<close> and \<open>Ly\<close>; a string
  argument goes into the template unchanged; \<^verbatim>\<open>maybe_convert_coo\<close>, and with it the
  lookups \<^verbatim>\<open>_get_tids_from_tags\<close> and \<^verbatim>\<open>__getitem__\<close>, rewrite a two-element input
  whose elements \<^verbatim>\<open>int\<close> accepts to the site tag before they delegate, and pass every
  other input on unmodified.
\<close>

theorem lattice_addressing:
  assumes "0 < Lx L" and "0 < Ly L"
  shows "site_tag L (PInt i) (PInt j) = site_tag L (PInt (i mod int (Lx L))) (PInt (j mod int (Ly L)))
    \<and> row_tag L (PInt i) = row_tag L (PInt (i mod int (Lx L)))
    \<and> col_tag L (PInt j) = col_tag L (PInt (j mod int (Ly L)))
    \<and> site_tag L (PStr s) (PStr t) = py_format (site_tag_id L) [FStr s, FStr t]
    \<and> site_tag L (PStr s) (PInt j) = py_format (site_tag_id L) [FStr s, FInt (j mod int (Ly L))]
    \<and> site_tag L (PInt i) (PStr t) = py_format (site_tag_id L) [FInt (i mod int (Lx L)), FStr t]
    \<and> row_tag L (PStr s) = py_format (row_tag_id L) [FStr s]
    \<and> col_tag L (PStr t) = py_format (col_tag_id L) [FStr t]
    \<and> (py_int parse a = Inr i \<and> py_int parse b = Inr j \<longrightarrow>
          maybe_convert_coo parse L (PTuple [a, b])
            = (case site_tag L (PInt i) (PInt j) of Inl e \<Rightarrow> Inl e | Inr tg \<Rightarrow> Inr (PStr tg))
        \<and> get_tids_from_tags parse super L (PTuple [a, b]) which
            = (case site_tag L (PInt i) (PInt j) of Inl e \<Rightarrow> Inl e | Inr tg \<Rightarrow> super (PStr tg) which)
        \<and> getitem parse super' L (PTuple [a, b])
            = (case site_tag L (PInt i) (PInt j) of Inl e \<Rightarrow> Inl e | Inr tg \<Rightarrow> super' (PStr tg)))
    \<and> (\<not> (\<exists>a b i j. x = PTuple [a, b] \<and> py_int parse a = Inr i \<and> py_int parse b = Inr j) \<longrightarrow>
          maybe_convert_coo parse L x = Inr x
        \<and> get_tids_from_tags parse super L x which = super x which
        \<and> getitem parse super' L x = super' x)"
proof -
  have wrap: "site_tag L (PInt i) (PInt j) = site_tag L (PInt (i mod int (Lx L))) (PInt (j mod int (Ly L)))"
    "row_tag L (PInt i) = row_tag L (PInt (i mod int (Lx L)))"
    "col_tag L (PInt j) = col_tag L (PInt (j mod int (Ly L)))"
    using assms by (simp_all add: site_tag_def row_tag_def col_tag_def wrap_index_def)
  have strs: "site_tag L (PStr s) (PStr t) = py_format (site_tag_id L) [FStr s, FStr t]"
    "site_tag L (PStr s) (PInt j) = py_format (site_tag_id L) [FStr s, FInt (j mod int (Ly L))]"
    "site_tag L (PInt i) (PStr t) = py_format (site_tag_id L) [FInt (i mod int (Lx L)), FStr t]"
    "row_tag L (PStr s) = py_format (row_tag_id L) [FStr s]"
    "col_tag L (PStr t) = py_format (col_tag_id L) [FStr t]"
    using assms by (simp_all add: site_tag_def row_tag_def col_tag_def wrap_index_def)
  have conv: "maybe_convert_coo parse L (PTuple [a, b])
            = (case site_tag L (PInt i) (PInt j) of Inl e \<Rightarrow> Inl e | Inr tg \<Rightarrow> Inr (PStr tg))"
    if "py_int parse a = Inr i" "py_int parse b = Inr j"
    using that site_tag_int_error[OF assms, of i j]
    by (auto simp: maybe_convert_coo_def unpack_ints_def split: sum.splits)
  have pass: "maybe_convert_coo parse L x = Inr x"
    if "\<not> (\<exists>a b i j. x = PTuple [a, b] \<and> py_int parse a = Inr i \<and> py_int parse b = Inr j)"
  proof -
    have "unpack_ints parse x = Inr p \<Longrightarrow> False" for p
      using that by (auto simp: unpack_ints_def split: pyval.splits list.splits sum.splits)
    moreover have "unpack_ints parse x = Inl e \<Longrightarrow> e = ValueError \<or> e = TypeError" for e
      by (auto simp: unpack_ints_def py_int_def split: pyval.splits list.splits sum.splits option.splits)
    ultimately show ?thesis
      by (cases x; cases "unpack_ints parse x") (auto simp: maybe_convert_coo_def)
  qed
  show ?thesis
    using wrap strs conv pass
    by (auto simp: get_tids_from_tags_def getitem_def split: sum.splits)
qed


theorem single_element_range_noop_witness:
  "canonize_row quiet_engine (peps_lattice 3 3) 1 ''right'' (Some (2, 2)) [] [] = (Inr (), [])
   \<and> compress_column quiet_engine (peps_lattice 3 3) 1 ''down'' (Some (0, 0)) [] [ContractAll]
       = (Inr (), [ContractAll])"
  using single_element_range_noop [of quiet_engine "peps_lattice 3 3" 1 "''right''" 2 "[]" "[]"]
    single_element_range_noop [of quiet_engine "peps_lattice 3 3" 1 "''down''" 0 "[]" "[ContractAll]"]
  by (simp add: check_opt_def)

theorem lattice_addressing_witness:
  "0 < Lx (peps_lattice 3 3) \<and> 0 < Ly (peps_lattice 3 3)
   \<and> site_tag (peps_lattice 3 3) (PInt (- 1)) (PInt 4) = Inr ''I2,1''
   \<and> site_tag (peps_lattice 3 3) (PInt 2) (PInt 1) = Inr ''I2,1''
   \<and> maybe_convert_coo (\<lambda>s. None) (peps_lattice 3 3) (PTuple [PInt 4, PInt 5]) = Inr (PStr ''I1,2'')
   \<and> maybe_convert_coo (\<lambda>s. None) (peps_lattice 3 3) (PTuple [PInt 4, PInt 5, PInt 6])
       = Inr (PTuple [PInt 4, PInt 5, PInt 6])"
proof -
  have pos: "0 < Lx (peps_lattice 3 3)" "0 < Ly (peps_lattice 3 3)"
    by (simp_all add: peps_lattice_def)
  have tag: "site_tag (peps_lattice 3 3) (PInt 2) (PInt 1) = Inr ''I2,1''"
    "site_tag (peps_lattice 3 3) (PInt 1) (PInt 2) = Inr ''I1,2''"
    by (simp_all add: peps_lattice_def site_tag_def wrap_index_def str_arg_def str_int_def
        digit_char_def)
  from lattice_addressing [OF pos, of "- 1" 4 "[]" "[]" "\<lambda>s. None" "PInt 4" "PInt 5"
      "\<lambda>t w. Inr ()" "[]" "\<lambda>t. Inr ()" "PTuple [PInt 4, PInt 5, PInt 6]"]
    lattice_addressing [OF pos, of 4 5 "[]" "[]" "\<lambda>s. None" "PInt 4" "PInt 5"
      "\<lambda>t w. Inr ()" "[]" "\<lambda>t. Inr ()" "PTuple [PInt 4, PInt 5, PInt 6]"]
  show ?thesis
    using pos tag by (simp add: py_int_def peps_lattice_def)
qed

lemma check_opt_sweep:
  "check_opt nm sweep valid = (if sweep \<in> set valid then Inr () else Inl ValueError)"
  by (simp add: check_opt_def)

text \<open>
  Claim C6. A sweep direction outside \<open>{right, left}\<close> makes \<^verbatim>\<open>canonize_row\<close> and
  \<^verbatim>\<open>compress_row\<close> raise ValueError with the network untouched, and so does a direction
  outside \<open>{up, down}\<close> for \<^verbatim>\<open>canonize_column\<close> and \<^verbatim>\<open>compress_column\<close>. When the
  loop of \<^verbatim>\<open>contract_boundary\<close> draws a letter outside \<open>{b, l, t, r}\<close> from the
  sequence, that pass raises ValueError and the loop is left with it; in particular
  the call raises at once when the first letter is such a letter.
\<close>

theorem invalid_direction_raises:
  "(sweep \<notin> {''right'', ''left''} \<longrightarrow>
      canonize_row E L i sweep yrange opts h = (Inl ValueError, h)
      \<and> compress_row E L i sweep yrange opts h = (Inl ValueError, h))
   \<and> (sweep \<notin> {''up'', ''down''} \<longrightarrow>
      canonize_column E L i sweep xrange opts h = (Inl ValueError, h)
      \<and> compress_column E L i sweep xrange opts h = (Inl ValueError, h))
   \<and> (sequence C \<noteq> []
        \<and> sequence C ! (pos s mod length (sequence C)) \<notin> {CHR ''b'', CHR ''l'', CHR ''t'', CHR ''r''} \<longrightarrow>
      cb_step E L C stops s = Stop (Inl ValueError) s
      \<and> cb_loop (Suc n) E L C stops s = Some (Inl ValueError, s))
   \<and> (sequence C \<noteq> [] \<and> hd (sequence C) \<notin> {CHR ''b'', CHR ''l'', CHR ''t'', CHR ''r''}
        \<and> cb_stops C = Inr stops \<longrightarrow>
      contract_boundary (Suc n) E L C h = Some (Inl ValueError, h))"
proof -
  have step: "cb_step E L C stops s = Stop (Inl ValueError) s"
    if "sequence C \<noteq> []"
      "sequence C ! (pos s mod length (sequence C)) \<notin> {CHR ''b'', CHR ''l'', CHR ''t'', CHR ''r''}"
    for s
    using that by (simp add: cb_step_def cb_visit_def)
  have first: "contract_boundary (Suc n) E L C h = Some (Inl ValueError, h)"
    if "sequence C \<noteq> []" "hd (sequence C) \<notin> {CHR ''b'', CHR ''l'', CHR ''t'', CHR ''r''}"
      "cb_stops C = Inr stops"
  proof -
    have "sequence C ! (pos (cb_init L C h) mod length (sequence C)) = hd (sequence C)"
      using that(1) by (simp add: cb_init_def hd_conv_nth)
    with that step [of "cb_init L C h"] show ?thesis
      by (simp add: contract_boundary_def cb_init_def)
  qed
  show ?thesis
    using step [of s] first
    by (simp add: canonize_row_def canonize_column_def compress_row_def compress_column_def
        pseq_def pbind_def lift_def check_opt_def)
qed


lemma for_each_calls:
  "\<exists>new. snd (for_each xs (\<lambda>x. engine_call E (f x)) h) = h @ new \<and> set new \<subseteq> f ` set xs"
proof (induction xs arbitrary: h)
  case Nil
  show ?case by (simp add: pret_def)
next
  case (Cons x xs)
  obtain new where new: "snd (for_each xs (\<lambda>x. engine_call E (f x)) (h @ [f x])) = (h @ [f x]) @ new"
    "set new \<subseteq> f ` set xs"
    using Cons.IH [of "h @ [f x]"] by blast
  show ?case
  proof (cases "raises E h (f x)")
    case None
    then have "snd (for_each (x # xs) (\<lambda>x. engine_call E (f x)) h) = h @ (f x # new)"
      using new(1) by (simp add: pseq_def pbind_def engine_call_def)
    moreover have "set (f x # new) \<subseteq> f ` set (x # xs)"
      using new(2) by auto
    ultimately show ?thesis by blast
  next
    case (Some e)
    then have "snd (for_each (x # xs) (\<lambda>x. engine_call E (f x)) h) = h @ [f x]"
      by (simp add: pseq_def pbind_def engine_call_def)
    moreover have "set [f x] \<subseteq> f ` set (x # xs)" by simp
    ultimately show ?thesis by blast
  qed
qed

lemma for_each_calls_prop:
  assumes "\<And>x. P (f x)"
  shows "\<exists>new. snd (for_each xs (\<lambda>x. engine_call E (f x)) h) = h @ new \<and> (\<forall>c \<in> set new. P c)"
proof -
  obtain new where "snd (for_each xs (\<lambda>x. engine_call E (f x)) h) = h @ new"
    and sub: "set new \<subseteq> f ` set xs"
    using for_each_calls [of xs E f h] by blast
  moreover have "\<forall>c \<in> set new. P c"
    using sub assms by auto
  ultimately show ?thesis by blast
qed

lemma absorb_target_default:
  "map_of opts ''absorb'' = None \<Longrightarrow>
     absorb_target (CompressBetween c1 c2 (setdefault ''absorb'' (PStr ''right'') opts)) = Some c2
     \<and> absorb_target (CompressBetween c1 c2 (setdefault ''absorb'' (PStr ''left'') opts)) = Some c1"
  by (simp add: absorb_target_def setdefault_def map_add_def)

lemma compress_row_valid:
  "compress_row E L i ''right'' yrange opts =
     for_each (range_up (min_of (case yrange of None \<Rightarrow> (0, int (Ly L) - 1) | Some r \<Rightarrow> r))
                        (max_of (case yrange of None \<Rightarrow> (0, int (Ly L) - 1) | Some r \<Rightarrow> r)))
       (\<lambda>j. engine_call E (CompressBetween (i, j) (i, j + 1)
               (setdefault ''absorb'' (PStr ''right'') opts)))"
  "compress_row E L i ''left'' yrange opts =
     for_each (range_down (max_of (case yrange of None \<Rightarrow> (0, int (Ly L) - 1) | Some r \<Rightarrow> r))
                          (min_of (case yrange of None \<Rightarrow> (0, int (Ly L) - 1) | Some r \<Rightarrow> r)))
       (\<lambda>j. engine_call E (CompressBetween (i, j) (i, j - 1)
               (setdefault ''absorb'' (PStr ''right'') opts)))"
  by (rule ext, simp add: compress_row_def pseq_def pbind_def lift_def check_opt_def Let_def
      min_of_def max_of_def)+

lemma compress_column_valid:
  "compress_column E L j ''up'' xrange opts =
     for_each (range_up (min_of (case xrange of None \<Rightarrow> (0, int (Lx L) - 1) | Some r \<Rightarrow> r))
                        (max_of (case xrange of None \<Rightarrow> (0, int (Lx L) - 1) | Some r \<Rightarrow> r)))
       (\<lambda>i. engine_call E (CompressBetween (i, j) (i + 1, j)
               (setdefault ''absorb'' (PStr ''right'') opts)))"
  "compress_column E L j ''down'' xrange opts =
     for_each (range_down (max_of (case xrange of None \<Rightarrow> (0, int (Lx L) - 1) | Some r \<Rightarrow> r))
                          (min_of (case xrange of None \<Rightarrow> (0, int (Lx L) - 1) | Some r \<Rightarrow> r)))
       (\<lambda>i. engine_call E (CompressBetween (i - 1, j) (i, j)
               (setdefault ''absorb'' (PStr ''left'') opts)))"
  by (rule ext, simp add: compress_column_def pseq_def pbind_def lift_def check_opt_def Let_def
      min_of_def max_of_def)+

text \<open>
  Claim C5. When the caller gives no \<^verbatim>\<open>absorb\<close> option, every bond compression that
  \<^verbatim>\<open>compress_row\<close> and \<^verbatim>\<open>compress_column\<close> ask for folds the weight into the
  neighbour in the direction of the sweep: a right sweep compresses the bond
  \<open>(i, j)-(i, j + 1)\<close> into \<open>(i, j + 1)\<close>, a left sweep the bond \<open>(i, j)-(i, j - 1)\<close> into
  \<open>(i, j - 1)\<close>, an up sweep the bond \<open>(i, j)-(i + 1, j)\<close> into \<open>(i + 1, j)\<close> and a down
  sweep the bond \<open>(i - 1, j)-(i, j)\<close> into \<open>(i - 1, j)\<close>.
\<close>

theorem default_absorb_side:
  assumes "map_of opts ''absorb'' = None"
  shows "(\<exists>new. snd (compress_row E L i ''right'' yrange opts h) = h @ new
            \<and> (\<forall>c \<in> set new. \<exists>j o'. c = CompressBetween (i, j) (i, j + 1) o'
                   \<and> absorb_target c = Some (i, j + 1)))
       \<and> (\<exists>new. snd (compress_row E L i ''left'' yrange opts h) = h @ new
            \<and> (\<forall>c \<in> set new. \<exists>j o'. c = CompressBetween (i, j) (i, j - 1) o'
                   \<and> absorb_target c = Some (i, j - 1)))
       \<and> (\<exists>new. snd (compress_column E L j ''up'' xrange opts h) = h @ new
            \<and> (\<forall>c \<in> set new. \<exists>i o'. c = CompressBetween (i, j) (i + 1, j) o'
                   \<and> absorb_target c = Some (i + 1, j)))
       \<and> (\<exists>new. snd (compress_column E L j ''down'' xrange opts h) = h @ new
            \<and> (\<forall>c \<in> set new. \<exists>i o'. c = CompressBetween (i - 1, j) (i, j) o'
                   \<and> absorb_target c = Some (i - 1, j)))"
proof -
  note tgt = absorb_target_default [OF assms]
  have r: "\<exists>new. snd (compress_row E L i ''right'' yrange opts h) = h @ new
            \<and> (\<forall>c \<in> set new. \<exists>j o'. c = CompressBetween (i, j) (i, j + 1) o'
                   \<and> absorb_target c = Some (i, j + 1))"
    unfolding compress_row_valid by (rule for_each_calls_prop) (simp add: tgt)
  have l: "\<exists>new. snd (compress_row E L i ''left'' yrange opts h) = h @ new
            \<and> (\<forall>c \<in> set new. \<exists>j o'. c = CompressBetween (i, j) (i, j - 1) o'
                   \<and> absorb_target c = Some (i, j - 1))"
    unfolding compress_row_valid by (rule for_each_calls_prop) (simp add: tgt)
  have u: "\<exists>new. snd (compress_column E L j ''up'' xrange opts h) = h @ new
            \<and> (\<forall>c \<in> set new. \<exists>i o'. c = CompressBetween (i, j) (i + 1, j) o'
                   \<and> absorb_target c = Some (i + 1, j))"
    unfolding compress_column_valid by (rule for_each_calls_prop) (simp add: tgt)
  have d: "\<exists>new. snd (compress_column E L j ''down'' xrange opts h) = h @ new
            \<and> (\<forall>c \<in> set new. \<exists>i o'. c = CompressBetween (i - 1, j) (i, j) o'
                   \<and> absorb_target c = Some (i - 1, j))"
    unfolding compress_column_valid by (rule for_each_calls_prop) (simp add: tgt)
  from r l u d show ?thesis by blast
qed


theorem invalid_direction_raises_witness:
  "canonize_row quiet_engine (peps_lattice 3 3) 0 ''up'' None [] [] = (Inl ValueError, [])
   \<and> compress_column quiet_engine (peps_lattice 3 3) 0 ''left'' None [] [] = (Inl ValueError, [])
   \<and> contract_boundary 1 quiet_engine (peps_lattice 3 3) (cb_default\<lparr>sequence := ''xb''\<rparr>) []
       = Some (Inl ValueError, [])"
  using invalid_direction_raises [where sweep = "''up''" and E = quiet_engine
      and L = "peps_lattice 3 3" and i = 0 and yrange = None and opts = "[]" and h = "[]"
      and C = "cb_default\<lparr>sequence := ''xb''\<rparr>" and stops = None and n = 0]
    invalid_direction_raises [where sweep = "''left''" and E = quiet_engine
      and L = "peps_lattice 3 3" and i = 0 and xrange = None and opts = "[]" and h = "[]"]
  by (simp add: cb_default_def cb_stops_def)

theorem default_absorb_side_witness:
  "map_of ([] :: kwargs) ''absorb'' = None
   \<and> snd (compress_row quiet_engine (peps_lattice 3 3) 1 ''left'' None [] [])
       = [CompressBetween (1, 2) (1, 1) [(''absorb'', PStr ''right'')],
          CompressBetween (1, 1) (1, 0) [(''absorb'', PStr ''right'')]]
   \<and> absorb_target (CompressBetween (1, 2) (1, 1) [(''absorb'', PStr ''right'')]) = Some (1, 1)
   \<and> snd (compress_column quiet_engine (peps_lattice 3 3) 0 ''down'' None [] [])
       = [CompressBetween (1, 0) (2, 0) [(''absorb'', PStr ''left'')],
          CompressBetween (0, 0) (1, 0) [(''absorb'', PStr ''left'')]]
   \<and> absorb_target (CompressBetween (1, 0) (2, 0) [(''absorb'', PStr ''left'')]) = Some (1, 0)"
proof -
  have none: "map_of ([] :: kwargs) ''absorb'' = None" by simp
  have up: "[1..2] = [1, 2 :: int]" "[0 + 1..2] = [1, 2 :: int]"
    by (simp_all add: upto.simps)
  from default_absorb_side [OF none, of quiet_engine "peps_lattice 3 3" 1 None "[]" 0 None]
  show ?thesis
    by (simp add: compress_row_valid compress_column_valid peps_lattice_def range_down_def
        min_of_def max_of_def up pseq_def pbind_def pret_def engine_call_def quiet_engine_def
        setdefault_def absorb_target_def)
qed

subsection \<open>The sweep scheduler\<close>

lemma cb_visit_b:
  "cb_visit E L C stops (CHR ''b'') s =
     (if (case stops of None \<Rightarrow> True | Some r \<Rightarrow> bottom s + 1 < stop_i_min r) then
        (case contract_boundary_from_bottom E L (bottom s, bottom s + 1)
                (Some (left s, right s)) (canonize C) ''left'' (layer_tags C) True
                (compress_opts C) (tn s) of
           (Inl e, h) \<Rightarrow> (Inl e, s\<lparr>tn := h\<rparr>)
         | (Inr n, h) \<Rightarrow> (Inr (), s\<lparr>bottom := bottom s + 1, tn := h, steps := steps s + 1\<rparr>))
      else (Inr (), s\<lparr>reached_stop := dict_set (CHR ''b'') True (reached_stop s)\<rparr>))"
  unfolding cb_visit_def by simp

lemma cb_visit_l:
  "cb_visit E L C stops (CHR ''l'') s =
     (if (case stops of None \<Rightarrow> True | Some r \<Rightarrow> left s + 1 < stop_j_min r) then
        (case contract_boundary_from_left E L (left s, left s + 1)
                (Some (bottom s, top' s)) (canonize C) ''up'' (layer_tags C) True
                (compress_opts C) (tn s) of
           (Inl e, h) \<Rightarrow> (Inl e, s\<lparr>tn := h\<rparr>)
         | (Inr n, h) \<Rightarrow> (Inr (), s\<lparr>left := left s + 1, tn := h, steps := steps s + 1\<rparr>))
      else (Inr (), s\<lparr>reached_stop := dict_set (CHR ''l'') True (reached_stop s)\<rparr>))"
  unfolding cb_visit_def by simp

lemma cb_visit_t:
  "cb_visit E L C stops (CHR ''t'') s =
     (if (case stops of None \<Rightarrow> True | Some r \<Rightarrow> top' s - 1 > stop_i_max r) then
        (case contract_boundary_from_top E L (top' s, top' s - 1)
                (Some (left s, right s)) (canonize C) ''right'' (layer_tags C) True
                (compress_opts C) (tn s) of
           (Inl e, h) \<Rightarrow> (Inl e, s\<lparr>tn := h\<rparr>)
         | (Inr n, h) \<Rightarrow> (Inr (), s\<lparr>top' := top' s - 1, tn := h, steps := steps s + 1\<rparr>))
      else (Inr (), s\<lparr>reached_stop := dict_set (CHR ''t'') True (reached_stop s)\<rparr>))"
  unfolding cb_visit_def by simp

lemma cb_visit_r:
  "cb_visit E L C stops (CHR ''r'') s =
     (if (case stops of None \<Rightarrow> True | Some r \<Rightarrow> right s - 1 > stop_j_max r) then
        (case contract_boundary_from_right E L (right s, right s - 1)
                (Some (bottom s, top' s)) (canonize C) ''down'' (layer_tags C) True
                (compress_opts C) (tn s) of
           (Inl e, h) \<Rightarrow> (Inl e, s\<lparr>tn := h\<rparr>)
         | (Inr n, h) \<Rightarrow> (Inr (), s\<lparr>right := right s - 1, tn := h, steps := steps s + 1\<rparr>))
      else (Inr (), s\<lparr>reached_stop := dict_set (CHR ''r'') True (reached_stop s)\<rparr>))"
  unfolding cb_visit_def by simp

lemma cb_visit_other:
  "d \<notin> set ''bltr'' \<Longrightarrow> cb_visit E L C stops d s = (Inl ValueError, s)"
  unfolding cb_visit_def by simp

lemma branch_effect:
  assumes "(if g then (case p of (Inl e, h) \<Rightarrow> (Inl e, s1 h) | (Inr n, h) \<Rightarrow> (Inr (), s2 h))
            else (Inr (), s3)) = (r, s')"
    and "\<And>h. visit_effect stops s (Inl e0) (s1 h)"
    and "\<And>h. visit_effect stops s (Inr ()) (s2 h)"
    and "\<not> g \<Longrightarrow> visit_effect stops s (Inr ()) s3"
  shows "visit_effect stops s r s'"
proof (cases g)
  case False
  with assms(1,4) show ?thesis by auto
next
  case True
  obtain r0 h where p: "p = (r0, h)" by (cases p)
  show ?thesis
  proof (cases r0)
    case (Inl e)
    with True p assms(1) have "r = Inl e" "s' = s1 h" by auto
    with assms(2) [of h] show ?thesis by (simp add: visit_effect_def)
  next
    case (Inr n)
    with True p assms(1) have "r = Inr ()" "s' = s2 h" by auto
    with assms(3) [of h] show ?thesis by simp
  qed
qed

lemma cb_visit_b_effect:
  assumes "cb_visit E L C stops (CHR ''b'') s = (r, s')"
  shows "visit_effect stops s r s'"
  using assms unfolding cb_visit_b
  by (rule branch_effect)
     (auto simp: visit_effect_def same_frontier_def moved_one_def split: option.splits)

lemma cb_visit_l_effect:
  assumes "cb_visit E L C stops (CHR ''l'') s = (r, s')"
  shows "visit_effect stops s r s'"
  using assms unfolding cb_visit_l
  by (rule branch_effect)
     (auto simp: visit_effect_def same_frontier_def moved_one_def split: option.splits)

lemma cb_visit_t_effect:
  assumes "cb_visit E L C stops (CHR ''t'') s = (r, s')"
  shows "visit_effect stops s r s'"
  using assms unfolding cb_visit_t
  by (rule branch_effect)
     (auto simp: visit_effect_def same_frontier_def moved_one_def split: option.splits)

lemma cb_visit_r_effect:
  assumes "cb_visit E L C stops (CHR ''r'') s = (r, s')"
  shows "visit_effect stops s r s'"
  using assms unfolding cb_visit_r
  by (rule branch_effect)
     (auto simp: visit_effect_def same_frontier_def moved_one_def split: option.splits)

lemma direction_cases:
  "d = CHR ''b'' \<or> d = CHR ''l'' \<or> d = CHR ''t'' \<or> d = CHR ''r'' \<or> d \<notin> set ''bltr''"
  by (simp; blast)

lemma cb_visit_effect:
  assumes "cb_visit E L C stops d s = (r, s')"
  shows "visit_effect stops s r s'"
proof -
  have "?thesis" if a: "d \<notin> set ''bltr''"
  proof -
    from assms cb_visit_other [OF a, of E L C stops s] have "r = Inl ValueError" "s' = s"
      by simp_all
    then show ?thesis by (simp add: visit_effect_def same_frontier_def)
  qed
  moreover have "?thesis" if d: "d = CHR ''b''"
    using assms unfolding d by (rule cb_visit_b_effect)
  moreover have "?thesis" if d: "d = CHR ''l''"
    using assms unfolding d by (rule cb_visit_l_effect)
  moreover have "?thesis" if d: "d = CHR ''t''"
    using assms unfolding d by (rule cb_visit_t_effect)
  moreover have "?thesis" if d: "d = CHR ''r''"
    using assms unfolding d by (rule cb_visit_r_effect)
  ultimately show ?thesis
    using direction_cases [of d] by (elim disjE) assumption+
qed

lemma cb_visit_none:
  assumes "cb_visit E L C None d s = (r, s')" and "d \<in> set ''bltr''"
  shows "pos s' = pos s
    \<and> ((\<exists>e. r = Inl e \<and> steps s' = steps s \<and> same_frontier s s')
       \<or> (r = Inr () \<and> steps s' = steps s + 1 \<and> moved_one s s'))"
  using cb_visit_effect [OF assms(1)] by (auto simp: visit_effect_def)

lemma cb_step_unfold:
  assumes "sequence C \<noteq> []"
    and "cb_visit E L C stops (sequence C ! (pos s mod length (sequence C))) s = (r0, s0)"
  shows "cb_step E L C stops s =
     (case r0 of
        Inl e \<Rightarrow> Stop (Inl e) s0
      | Inr u \<Rightarrow>
          (case stops of
             None \<Rightarrow>
               (if thin_strip C s0 then Stop (contract_all E (tn s0)) s0
                else Continue (s0\<lparr>pos := pos s0 + 1\<rparr>))
           | Some b \<Rightarrow>
               (if list_all snd (reached_stop s0) then Stop (Inr (RNetwork (tn s0))) s0
                else Continue (s0\<lparr>pos := pos s0 + 1\<rparr>))))"
  using assms by (simp add: cb_step_def)

lemma cb_step_continue:
  assumes "sequence C \<noteq> []"
    and "cb_visit E L C stops (sequence C ! (pos s mod length (sequence C))) s = (r0, s0)"
    and "cb_step E L C stops s = Continue s'"
  shows "r0 = Inr ()" and "s' = s0\<lparr>pos := pos s0 + 1\<rparr>"
    and "stops = None \<Longrightarrow> \<not> thin_strip C s0"
    and "stops \<noteq> None \<Longrightarrow> \<not> list_all snd (reached_stop s0)"
proof -
  note u = assms(3) [unfolded cb_step_unfold [OF assms(1,2)]]
  show "r0 = Inr ()" using u by (cases r0) simp_all
  show "s' = s0\<lparr>pos := pos s0 + 1\<rparr>"
    using u by (cases r0; cases stops; simp split: if_splits)
  show "stops = None \<Longrightarrow> \<not> thin_strip C s0"
    using u by (cases r0; cases stops; simp split: if_splits)
  show "stops \<noteq> None \<Longrightarrow> \<not> list_all snd (reached_stop s0)"
    using u by (cases r0; cases stops; simp split: if_splits)
qed

lemma cb_step_stop:
  assumes "sequence C \<noteq> []"
    and "cb_visit E L C stops (sequence C ! (pos s mod length (sequence C))) s = (r0, s0)"
    and "cb_step E L C stops s = Stop r s'"
  shows "s' = s0"
    and "r0 = Inl e \<Longrightarrow> r = Inl e"
    and "r0 = Inr () \<Longrightarrow> stops = None \<Longrightarrow> thin_strip C s0 \<and> r = contract_all E (tn s0)"
    and "r0 = Inr () \<Longrightarrow> stops \<noteq> None \<Longrightarrow>
           list_all snd (reached_stop s0) \<and> r = Inr (RNetwork (tn s0))"
proof -
  note u = assms(3) [unfolded cb_step_unfold [OF assms(1,2)]]
  show "s' = s0" using u by (cases r0; cases stops; simp split: if_splits)
  show "r0 = Inl e \<Longrightarrow> r = Inl e" using u by simp
  show "r0 = Inr () \<Longrightarrow> stops = None \<Longrightarrow> thin_strip C s0 \<and> r = contract_all E (tn s0)"
    using u by (auto split: if_splits)
  show "r0 = Inr () \<Longrightarrow> stops \<noteq> None \<Longrightarrow>
           list_all snd (reached_stop s0) \<and> r = Inr (RNetwork (tn s0))"
    using u by (cases stops; auto split: if_splits)
qed

lemma cb_step_effect:
  assumes "cb_step E L C stops s = Continue s' \<or> cb_step E L C stops s = Stop r s'"
  shows "(steps s' = steps s \<and> same_frontier s s')
       \<or> (steps s' = steps s + 1 \<and> moved_one s s')"
proof (cases "sequence C = []")
  case True
  with assms show ?thesis by (simp add: cb_step_def same_frontier_def)
next
  case False
  obtain r0 s0 where v: "cb_visit E L C stops (sequence C ! (pos s mod length (sequence C))) s = (r0, s0)"
    by (cases "cb_visit E L C stops (sequence C ! (pos s mod length (sequence C))) s")
  from cb_visit_effect [OF v] have
    e: "(steps s0 = steps s \<and> same_frontier s s0) \<or> (steps s0 = steps s + 1 \<and> moved_one s s0)"
    unfolding visit_effect_def by blast
  from assms have "s' = s0 \<or> s' = s0\<lparr>pos := pos s0 + 1\<rparr>"
    using cb_step_continue(2) [OF False v] cb_step_stop(1) [OF False v] by blast
  then show ?thesis
  proof
    assume "s' = s0" with e show ?thesis by simp
  next
    assume "s' = s0\<lparr>pos := pos s0 + 1\<rparr>"
    with e show ?thesis by (simp add: same_frontier_def moved_one_def)
  qed
qed

lemma valid_sequence_nth:
  "valid_sequence q \<Longrightarrow> q ! (k mod length q) \<in> set ''bltr''"
  unfolding valid_sequence_def list_all_iff by (metis length_greater_0_conv mod_less_divisor nth_mem)

lemma cb_step_none_continue:
  assumes "valid_sequence (sequence C)" and "cb_step E L C None s = Continue s'"
  shows "steps s' = steps s + 1 \<and> moved_one s s' \<and> \<not> thin_strip C s' \<and> pos s' = pos s + 1"
proof -
  let ?d = "sequence C ! (pos s mod length (sequence C))"
  have ne: "sequence C \<noteq> []" using assms(1) by (simp add: valid_sequence_def)
  obtain r0 s0 where v: "cb_visit E L C None ?d s = (r0, s0)"
    by (cases "cb_visit E L C None ?d s")
  note c = cb_step_continue [OF ne v assms(2)]
  from cb_visit_none [OF v valid_sequence_nth [OF assms(1)]] c(1)
  have "steps s0 = steps s + 1" "moved_one s s0" "pos s0 = pos s" by auto
  then show ?thesis
    using c(2) c(3) by (simp add: moved_one_def thin_strip_def)
qed

lemma cb_step_none_stop:
  assumes "valid_sequence (sequence C)" and "cb_step E L C None s = Stop r s'"
  shows "(\<exists>e. r = Inl e \<and> steps s' = steps s \<and> same_frontier s s')
       \<or> (r = contract_all E (tn s') \<and> thin_strip C s' \<and> steps s' = steps s + 1
           \<and> moved_one s s')"
proof -
  let ?d = "sequence C ! (pos s mod length (sequence C))"
  have ne: "sequence C \<noteq> []" using assms(1) by (simp add: valid_sequence_def)
  obtain r0 s0 where v: "cb_visit E L C None ?d s = (r0, s0)"
    by (cases "cb_visit E L C None ?d s")
  note c = cb_step_stop [OF ne v assms(2)]
  from cb_visit_none [OF v valid_sequence_nth [OF assms(1)]]
  have "(\<exists>e. r0 = Inl e \<and> steps s0 = steps s \<and> same_frontier s s0)
       \<or> (r0 = Inr () \<and> steps s0 = steps s + 1 \<and> moved_one s s0)" by blast
  then show ?thesis
  proof
    assume "\<exists>e. r0 = Inl e \<and> steps s0 = steps s \<and> same_frontier s s0"
    then obtain e where "r0 = Inl e" "steps s0 = steps s" "same_frontier s s0" by blast
    with c(1) c(2) [of e] show ?thesis by simp
  next
    assume "r0 = Inr () \<and> steps s0 = steps s + 1 \<and> moved_one s s0"
    with c(1) c(3) show ?thesis by simp
  qed
qed

lemma measure_continue:
  assumes "moved_one s s'" and "\<not> thin_strip C s'"
  shows "\<not> thin_strip C s" and "sweep_measure C s = sweep_measure C s' + 1"
    and "2 \<le> sweep_measure C s'"
  using assms unfolding moved_one_def thin_strip_def sweep_measure_def by auto

lemma contract_all_cases:
  "(\<exists>e. contract_all E h = Inl e) \<or> contract_all E h = Inr (RContracted h)"
  by (cases "raises E h ContractAll") (simp_all add: contract_all_def)

lemma thin_sweep_stop:
  assumes "valid_sequence (sequence C)" and "cb_step E L C None s = Stop r s'"
  shows "thin_sweep E L C s 1 r s'"
proof -
  have loop: "cb_loop 1 E L C None s = Some (r, s')"
    unfolding One_nat_def using assms(2) by simp
  from cb_step_none_stop [OF assms] contract_all_cases [of E "tn s'"]
  have "(\<exists>e. r = Inl e \<and> steps s' \<le> steps s + 1)
      \<or> (r = Inr (RContracted (tn s')) \<and> thin_strip C s' \<and> steps s' = steps s + 1)"
    by auto
  with loop show ?thesis
    unfolding thin_sweep_def by auto
qed

lemma thin_sweep_continue:
  assumes "valid_sequence (sequence C)" and "cb_step E L C None s = Continue s1"
    and "thin_sweep E L C s1 N r s'"
  shows "thin_sweep E L C s (Suc N) r s'"
proof -
  from cb_step_none_continue [OF assms(1,2)]
  have st: "steps s1 = steps s + 1" and mv: "moved_one s s1" and nt: "\<not> thin_strip C s1"
    by simp_all
  note m = measure_continue [OF mv nt]
  from assms(3) have N: "1 \<le> N" and loop1: "cb_loop N E L C None s1 = Some (r, s')"
    and b1: "int N \<le> max 1 (sweep_measure C s1 - 1)"
    and s1: "steps s' \<le> steps s1 + N"
    and it1: "\<And>k. 1 \<le> k \<Longrightarrow> k < N \<Longrightarrow>
            \<exists>sk. cb_iterate k E L C None s1 = Some sk \<and> \<not> thin_strip C sk
                  \<and> steps sk = steps s1 + k"
    and r1: "(\<exists>e. r = Inl e)
          \<or> (r = Inr (RContracted (tn s')) \<and> thin_strip C s' \<and> steps s' = steps s1 + N)"
    unfolding thin_sweep_def by blast+
  have loop: "cb_loop (Suc N) E L C None s = Some (r, s')"
    using assms(2) loop1 by simp
  have bound: "int (Suc N) \<le> max 1 (sweep_measure C s - 1)"
    using b1 m(2) m(3) by simp
  have it: "\<exists>sk. cb_iterate k E L C None s = Some sk \<and> \<not> thin_strip C sk
                  \<and> steps sk = steps s + k" if k: "1 \<le> k" "k < Suc N" for k
  proof (cases k)
    case 0
    with k show ?thesis by simp
  next
    case (Suc k')
    show ?thesis
    proof (cases k')
      case 0
      with Suc assms(2) nt st show ?thesis by simp
    next
      case (Suc j)
      with \<open>k = Suc k'\<close> k have "1 \<le> k'" "k' < N" by simp_all
      from it1 [OF this] obtain sk where "cb_iterate k' E L C None s1 = Some sk"
        "\<not> thin_strip C sk" "steps sk = steps s1 + k'" by blast
      with \<open>k = Suc k'\<close> assms(2) st show ?thesis by simp
    qed
  qed
  show ?thesis
    unfolding thin_sweep_def using loop bound s1 st it r1 by auto
qed

lemma sweep_none:
  assumes "valid_sequence (sequence C)" and "sweep_measure C s \<le> int m"
  shows "\<exists>N r s'. thin_sweep E L C s N r s'"
  using assms(2)
proof (induction m arbitrary: s)
  case 0
  show ?case
  proof (cases "cb_step E L C None s")
    case (Stop r s')
    from thin_sweep_stop [OF assms(1) this] show ?thesis by blast
  next
    case (Continue s1)
    from cb_step_none_continue [OF assms(1) this]
    have "moved_one s s1" "\<not> thin_strip C s1" by simp_all
    from measure_continue(2,3) [OF this] 0 show ?thesis by simp
  qed
next
  case (Suc m)
  show ?case
  proof (cases "cb_step E L C None s")
    case (Stop r s')
    from thin_sweep_stop [OF assms(1) this] show ?thesis by blast
  next
    case (Continue s1)
    from cb_step_none_continue [OF assms(1) this]
    have "moved_one s s1" "\<not> thin_strip C s1" by simp_all
    from measure_continue(2) [OF this] Suc.prems have "sweep_measure C s1 \<le> int m" by simp
    from Suc.IH [OF this] obtain N r s' where "thin_sweep E L C s1 N r s'" by blast
    from thin_sweep_continue [OF assms(1) Continue this] show ?thesis by blast
  qed
qed

lemma cb_iterate_invariant:
  assumes "\<And>s s'. I s \<Longrightarrow> cb_step E L C stops s = Continue s' \<Longrightarrow> I s'"
    and "I s0" and "cb_iterate n E L C stops s0 = Some s"
  shows "I s"
  using assms(2,3)
proof (induction n arbitrary: s0)
  case 0
  then show ?case by simp
next
  case (Suc n)
  then show ?case
    by (cases "cb_step E L C stops s0") (auto intro: assms(1))
qed

lemma cb_loop_invariant:
  assumes "\<And>s s'. I s \<Longrightarrow> cb_step E L C stops s = Continue s' \<Longrightarrow> I s'"
    and "\<And>s r s'. I s \<Longrightarrow> cb_step E L C stops s = Stop r s' \<Longrightarrow> Q r s'"
    and "I s0" and "cb_loop n E L C stops s0 = Some (r, s)"
  shows "Q r s"
  using assms(3,4)
proof (induction n arbitrary: s0)
  case 0
  then show ?case by simp
next
  case (Suc n)
  then show ?case
    by (cases "cb_step E L C stops s0") (auto intro: assms(1,2))
qed

lemma none_inv_continue:
  assumes "none_inv C s" and "cb_step E L C None s = Continue s'"
  shows "none_inv C s'"
proof -
  have ne: "sequence C \<noteq> []"
    using assms(2) by (auto simp: cb_step_def)
  obtain r0 s0 where v: "cb_visit E L C None (sequence C ! (pos s mod length (sequence C))) s = (r0, s0)"
    by (cases "cb_visit E L C None (sequence C ! (pos s mod length (sequence C))) s")
  note c = cb_step_continue [OF ne v assms(2)]
  from c(3) have "\<not> thin_strip C s0" by simp
  with assms(1) c(2) show ?thesis
    by (simp add: none_inv_def thin_strip_def)
qed

lemma none_inv_stop:
  assumes "none_inv C s" and "cb_step E L C None s = Stop r s'"
  shows "frontier_ok s'"
proof -
  from cb_step_effect [of E L C None s s' r] assms(2)
  have "same_frontier s s' \<or> moved_one s s'" by blast
  with assms(1) show ?thesis
    unfolding none_inv_def frontier_ok_def same_frontier_def moved_one_def by auto
qed

lemma branch_pres:
  assumes "(if g then (case p of (Inl e, h) \<Rightarrow> (Inl e, s1 h) | (Inr n, h) \<Rightarrow> (Inr (), s2 h))
            else (Inr (), s3)) = (r, s')"
    and "\<And>h. P (s1 h)" and "\<And>h. g \<Longrightarrow> P (s2 h)" and "P s3"
  shows "P s'"
proof (cases g)
  case False
  with assms(1,4) show ?thesis by auto
next
  case True
  obtain r0 h where p: "p = (r0, h)" by (cases p)
  show ?thesis
  proof (cases r0)
    case (Inl e)
    with True p assms(1) have "s' = s1 h" by auto
    with assms(2) show ?thesis by simp
  next
    case (Inr n)
    with True p assms(1) have "s' = s2 h" by auto
    with assms(3) [OF True] show ?thesis by simp
  qed
qed

lemma box_inv_visit:
  assumes "cb_visit E L C (Some b) d s = (r, s')" and "box_inv b s"
  shows "box_inv b s'"
proof -
  have "?thesis" if a: "d \<notin> set ''bltr''"
    using assms cb_visit_other [OF a, of E L C "Some b" s] by simp
  moreover have "?thesis" if d: "d = CHR ''b''"
    using assms(1) unfolding d cb_visit_b
    by (rule branch_pres) (use assms(2) in \<open>auto simp: box_inv_def\<close>)
  moreover have "?thesis" if d: "d = CHR ''l''"
    using assms(1) unfolding d cb_visit_l
    by (rule branch_pres) (use assms(2) in \<open>auto simp: box_inv_def\<close>)
  moreover have "?thesis" if d: "d = CHR ''t''"
    using assms(1) unfolding d cb_visit_t
    by (rule branch_pres) (use assms(2) in \<open>auto simp: box_inv_def\<close>)
  moreover have "?thesis" if d: "d = CHR ''r''"
    using assms(1) unfolding d cb_visit_r
    by (rule branch_pres) (use assms(2) in \<open>auto simp: box_inv_def\<close>)
  ultimately show ?thesis
    using direction_cases [of d] by (elim disjE) assumption+
qed

lemma box_inv_step:
  assumes "box_inv b s"
    and "cb_step E L C (Some b) s = Continue s' \<or> cb_step E L C (Some b) s = Stop r s'"
  shows "box_inv b s'"
proof (cases "sequence C = []")
  case True
  with assms show ?thesis by (simp add: cb_step_def)
next
  case False
  obtain r0 s0 where v: "cb_visit E L C (Some b) (sequence C ! (pos s mod length (sequence C))) s = (r0, s0)"
    by (cases "cb_visit E L C (Some b) (sequence C ! (pos s mod length (sequence C))) s")
  from assms(2) have "s' = s0 \<or> s' = s0\<lparr>pos := pos s0 + 1\<rparr>"
    using cb_step_continue(2) [OF False v] cb_step_stop(1) [OF False v] by blast
  with box_inv_visit [OF v assms(1)] show ?thesis
    by (auto simp: box_inv_def)
qed

lemma fold_min_le: "fold min xs (a :: int) \<le> a"
proof (induction xs arbitrary: a)
  case Nil
  show ?case by simp
next
  case (Cons x xs)
  have "fold min xs (min x a) \<le> min x a" by (rule Cons.IH)
  then show ?case by simp
qed

lemma fold_max_ge: "(a :: int) \<le> fold max xs a"
proof (induction xs arbitrary: a)
  case Nil
  show ?case by simp
next
  case (Cons x xs)
  have "max x a \<le> fold max xs (max x a)" by (rule Cons.IH)
  then show ?case by simp
qed

lemma stop_region_ordered:
  assumes "stop_region a = Inr b"
  shows "stop_i_min b \<le> stop_i_max b \<and> stop_j_min b \<le> stop_j_max b"
proof (cases a)
  case Nil
  with assms show ?thesis by (simp add: stop_region_def)
next
  case (Cons c cs)
  with assms have b: "b = \<lparr>stop_i_min = fold min (map fst cs) (fst c),
               stop_i_max = fold max (map fst cs) (fst c),
               stop_j_min = fold min (map snd cs) (snd c),
               stop_j_max = fold max (map snd cs) (snd c)\<rparr>"
    by (simp add: stop_region_def)
  show ?thesis
    unfolding b
    using fold_min_le [of "map fst cs" "fst c"] fold_max_ge [of "fst c" "map fst cs"]
      fold_min_le [of "map snd cs" "snd c"] fold_max_ge [of "snd c" "map snd cs"]
    by simp
qed

lemma frontier_ok_sweep:
  assumes "cb_stops C = Inr stops" and "start_ok C stops s0"
  shows "cb_iterate n E L C stops s0 = Some s1 \<Longrightarrow> frontier_ok s1"
    and "cb_loop n E L C stops s0 = Some (r1, s2) \<Longrightarrow> frontier_ok s2"
proof -
  show "frontier_ok s1" if it: "cb_iterate n E L C stops s0 = Some s1"
  proof (cases stops)
    case None
    with assms(2) have i0: "none_inv C s0" by (simp add: start_ok_def none_inv_def)
    have "none_inv C s1"
      by (rule cb_iterate_invariant [where I = "none_inv C", OF _ i0 it [unfolded None]])
         (rule none_inv_continue)
    then show ?thesis by (simp add: none_inv_def frontier_ok_def)
  next
    case (Some b)
    from assms(1) Some obtain a where "stop_region a = Inr b"
      by (auto simp: cb_stops_def split: option.splits sum.splits)
    from stop_region_ordered [OF this] assms(2) Some
    have i0: "box_inv b s0" by (simp add: start_ok_def box_inv_def)
    have "box_inv b s1"
      by (rule cb_iterate_invariant [where I = "box_inv b", OF _ i0 it [unfolded Some]])
         (blast intro: box_inv_step)
    then show ?thesis by (simp add: box_inv_def frontier_ok_def)
  qed
  show "frontier_ok s2" if lp: "cb_loop n E L C stops s0 = Some (r1, s2)"
  proof (cases stops)
    case None
    with assms(2) have i0: "none_inv C s0" by (simp add: start_ok_def none_inv_def)
    show ?thesis
      by (rule cb_loop_invariant [where I = "none_inv C" and Q = "\<lambda>r. frontier_ok",
            OF _ _ i0 lp [unfolded None]])
         (rule none_inv_continue, assumption+, rule none_inv_stop, assumption+)
  next
    case (Some b)
    from assms(1) Some obtain a where "stop_region a = Inr b"
      by (auto simp: cb_stops_def split: option.splits sum.splits)
    from stop_region_ordered [OF this] assms(2) Some
    have i0: "box_inv b s0" by (simp add: start_ok_def box_inv_def)
    have "box_inv b s2"
      by (rule cb_loop_invariant [where I = "box_inv b" and Q = "\<lambda>r. box_inv b",
            OF _ _ i0 lp [unfolded Some]])
         (blast intro: box_inv_step)+
    then show ?thesis by (simp add: box_inv_def frontier_ok_def)
  qed
qed

text \<open>
  Claim C3, as amended. Every pass through the loop body either leaves the four edges
  where they are (it raised, or it recorded that the protected region is reached) or
  completes one absorption and moves exactly one edge by exactly one unit toward the
  interior. And \<open>bottom \<le> top\<close>, \<open>left \<le> right\<close> hold after every pass, the last one
  included, when the sweep starts from a rectangle as \<open>start_ok\<close> describes: without
  a protected region, \<open>bottom < top\<close>, \<open>left < right\<close> and \<open>max_separation \<ge> 0\<close>; with
  one, \<open>bottom \<le> top\<close>, \<open>left \<le> right\<close> and a bounding box that meets the rectangle.
\<close>

theorem frontier_moves_by_one:
  "(cb_step E L C stops s = Continue s' \<or> cb_step E L C stops s = Stop r s' \<longrightarrow>
      (steps s' = steps s \<and> same_frontier s s') \<or> (steps s' = steps s + 1 \<and> moved_one s s'))
   \<and> (cb_stops C = Inr stops \<and> start_ok C stops (cb_init L C h) \<longrightarrow>
        (cb_iterate n E L C stops (cb_init L C h) = Some s1 \<longrightarrow> frontier_ok s1)
        \<and> (cb_loop n E L C stops (cb_init L C h) = Some (r1, s2) \<longrightarrow> frontier_ok s2))"
  using cb_step_effect [of E L C stops s s' r]
    frontier_ok_sweep(1) [of C stops "cb_init L C h" n E L s1]
    frontier_ok_sweep(2) [of C stops "cb_init L C h" n E L r1 s2]
  by blast

lemma default_init:
  assumes "bottom0 C = None" "top0 C = None" "left0 C = None" "right0 C = None"
  shows "bottom (cb_init L C h) = 0" "top' (cb_init L C h) = int (Lx L) - 1"
    "left (cb_init L C h) = 0" "right (cb_init L C h) = int (Ly L) - 1"
    "steps (cb_init L C h) = 0" "tn (cb_init L C h) = h" "pos (cb_init L C h) = 0"
  using assms by (simp_all add: cb_init_def)

lemma sweep_measure_nonneg: "0 \<le> sweep_measure C s"
  unfolding sweep_measure_def thin_strip_def by auto

text \<open>
  Claim C4, as amended. Without a protected region, from the full lattice and for a
  non-empty sequence of the four letters, \<^verbatim>\<open>contract_boundary\<close> returns (or raises)
  after \<open>N\<close> passes through the loop body, whatever the engine does and whatever
  \<^verbatim>\<open>max_separation\<close> is; it completes at most \<open>N\<close> absorptions, and
  \<open>N \<le> max 1 ((Lx - s) + (Ly - s))\<close>: the loop tests for the thin strip only after an
  absorption, so one absorption is always made.
\<close>

theorem thin_sweep_bound:
  assumes "valid_sequence (sequence C)" and "around C = None"
    and "bottom0 C = None" and "top0 C = None" and "left0 C = None" and "right0 C = None"
  shows "\<exists>N r s. cb_loop N E L C None (cb_init L C h) = Some (r, s)
           \<and> contract_boundary N E L C h = Some (r, if inplace C then tn s else h)
           \<and> steps s \<le> N
           \<and> int N \<le> max 1 ((int (Lx L) - max_separation C) + (int (Ly L) - max_separation C))"
proof -
  let ?s0 = "cb_init L C h"
  note d = default_init [OF assms(3-6), of L h]
  have "sweep_measure C ?s0 \<le> int (nat (sweep_measure C ?s0))"
    using sweep_measure_nonneg [of C ?s0] by simp
  from sweep_none [OF assms(1) this, of E L]
  obtain N r s where ts: "thin_sweep E L C ?s0 N r s"
    by blast
  then have loop: "cb_loop N E L C None ?s0 = Some (r, s)"
    and b: "int N \<le> max 1 (sweep_measure C ?s0 - 1)"
    and st: "steps s \<le> steps ?s0 + N"
    unfolding thin_sweep_def by blast+
  have "sweep_measure C ?s0 - 1
      \<le> max 1 ((int (Lx L) - max_separation C) + (int (Ly L) - max_separation C))"
    unfolding sweep_measure_def thin_strip_def d by auto
  with b have bound:
    "int N \<le> max 1 ((int (Lx L) - max_separation C) + (int (Ly L) - max_separation C))"
    by simp
  have cb: "contract_boundary N E L C h = Some (r, if inplace C then tn s else h)"
    using loop assms(2) by (simp add: contract_boundary_def cb_stops_def)
  have "steps s \<le> N" using st d(5) by simp
  with loop cb bound show ?thesis by blast
qed

theorem thin_sweep_bound_counterexample:
  "map_option (steps \<circ> snd)
     (cb_loop 1 quiet_engine (peps_lattice 2 2) (cb_default\<lparr>max_separation := 2\<rparr>) None
        (cb_init (peps_lattice 2 2) (cb_default\<lparr>max_separation := 2\<rparr>) [])) = Some 1
   \<and> \<not> ((1 :: int) \<le> (int (Lx (peps_lattice 2 2)) - max_separation (cb_default\<lparr>max_separation := 2\<rparr>))
                      + (int (Ly (peps_lattice 2 2)) - max_separation (cb_default\<lparr>max_separation := 2\<rparr>)))"
  by code_simp

theorem thin_sweep_bound_witness:
  "valid_sequence (sequence cb_default) \<and> around cb_default = None
   \<and> (\<exists>N r s. cb_loop N quiet_engine (peps_lattice 3 3) cb_default None
                   (cb_init (peps_lattice 3 3) cb_default []) = Some (r, s)
         \<and> contract_boundary N quiet_engine (peps_lattice 3 3) cb_default []
             = Some (r, if inplace cb_default then tn s else [])
         \<and> steps s \<le> N
         \<and> int N \<le> max 1 ((int (Lx (peps_lattice 3 3)) - max_separation cb_default)
                           + (int (Ly (peps_lattice 3 3)) - max_separation cb_default)))"
proof -
  have v: "valid_sequence (sequence cb_default)"
    by (simp add: valid_sequence_def cb_default_def)
  have d: "around cb_default = None" "bottom0 cb_default = None" "top0 cb_default = None"
    "left0 cb_default = None" "right0 cb_default = None"
    by (simp_all add: cb_default_def)
  from thin_sweep_bound [OF v d, of quiet_engine "peps_lattice 3 3" "[]"] v d(1)
  show ?thesis by blast
qed

theorem frontier_moves_by_one_counterexample:
  "map_option (frontier_of \<circ> snd)
     (cb_loop 1 quiet_engine (peps_lattice 1 3) cb_default None
        (cb_init (peps_lattice 1 3) cb_default [])) = Some (1, 0, 0, 2)
   \<and> map_option (frontier_ok \<circ> snd)
     (cb_loop 1 quiet_engine (peps_lattice 1 3) cb_default None
        (cb_init (peps_lattice 1 3) cb_default [])) = Some False
   \<and> cb_stops (cb_default\<lparr>around := Some [(3, 0)]\<rparr>)
       = Inr (Some \<lparr>stop_i_min = 3, stop_i_max = 3, stop_j_min = 0, stop_j_max = 0\<rparr>)
   \<and> map_option frontier_of
     (cb_iterate 5 quiet_engine (peps_lattice 2 2) (cb_default\<lparr>around := Some [(3, 0)]\<rparr>)
        (Some \<lparr>stop_i_min = 3, stop_i_max = 3, stop_j_min = 0, stop_j_max = 0\<rparr>)
        (cb_init (peps_lattice 2 2) (cb_default\<lparr>around := Some [(3, 0)]\<rparr>) [])) = Some (2, 1, 0, 1)
   \<and> map_option frontier_ok
     (cb_iterate 5 quiet_engine (peps_lattice 2 2) (cb_default\<lparr>around := Some [(3, 0)]\<rparr>)
        (Some \<lparr>stop_i_min = 3, stop_i_max = 3, stop_j_min = 0, stop_j_max = 0\<rparr>)
        (cb_init (peps_lattice 2 2) (cb_default\<lparr>around := Some [(3, 0)]\<rparr>) [])) = Some False"
  by code_simp

theorem frontier_moves_by_one_witness:
  "cb_stops cb_default = Inr None
   \<and> start_ok cb_default None (cb_init (peps_lattice 3 3) cb_default [])
   \<and> map_option (frontier_of \<circ> snd)
        (cb_loop 1 quiet_engine (peps_lattice 3 3) cb_default None
           (cb_init (peps_lattice 3 3) cb_default [])) = Some (1, 2, 0, 2)
   \<and> map_option (frontier_ok \<circ> snd)
        (cb_loop 1 quiet_engine (peps_lattice 3 3) cb_default None
           (cb_init (peps_lattice 3 3) cb_default [])) = Some True"
proof -
  let ?s0 = "cb_init (peps_lattice 3 3) cb_default []"
  have a: "cb_stops cb_default = Inr None" by code_simp
  have b: "start_ok cb_default None ?s0" by code_simp
  have c: "map_option (frontier_of \<circ> snd)
        (cb_loop 1 quiet_engine (peps_lattice 3 3) cb_default None ?s0) = Some (1, 2, 0, 2)"
    by code_simp
  then obtain r s where l: "cb_loop 1 quiet_engine (peps_lattice 3 3) cb_default None ?s0 = Some (r, s)"
    by (cases "cb_loop 1 quiet_engine (peps_lattice 3 3) cb_default None ?s0") auto
  from frontier_moves_by_one [of quiet_engine "peps_lattice 3 3" cb_default None ?s0 s r "[]" 1 s r s]
    a b l
  have "frontier_ok s" by blast
  with a b c l show ?thesis by simp
qed

subsection \<open>Runs of the directional steps on an engine that never raises\<close>

lemma runsI:
  assumes "\<And>h. \<exists>x new. m h = (Inr x, h @ new) \<and> list_all P new"
  shows "runs P m"
  using assms unfolding runs_def by blast

lemma runsD:
  assumes "runs P m"
  obtains x new where "m h = (Inr x, h @ new)" and "list_all P new"
  using assms unfolding runs_def by blast

lemma runs_pret: "runs P (pret x)"
  by (rule runsI) (simp add: pret_def)

lemma runs_lift: "runs P (lift (Inr x))"
  by (rule runsI) (simp add: lift_def)

lemma runs_pbind:
  assumes "runs P m" and "\<And>x. runs P (f x)"
  shows "runs P (pbind m f)"
proof (rule runsI)
  fix h
  from assms(1) obtain x new where m: "m h = (Inr x, h @ new)" and p: "list_all P new"
    by (rule runsD)
  from assms(2) [of x] obtain y new' where f: "f x (h @ new) = (Inr y, (h @ new) @ new')"
    and p': "list_all P new'"
    by (rule runsD)
  have "pbind m f h = (Inr y, h @ (new @ new'))"
    using m f by (simp add: pbind_def)
  moreover have "list_all P (new @ new')" using p p' by simp
  ultimately show "\<exists>x new. pbind m f h = (Inr x, h @ new) \<and> list_all P new" by blast
qed

lemma runs_pseq:
  assumes "runs P m" and "runs P n"
  shows "runs P (pseq m n)"
  unfolding pseq_def using assms by (rule runs_pbind)

lemma runs_for_each:
  assumes "\<And>x. x \<in> set xs \<Longrightarrow> runs P (body x)"
  shows "runs P (for_each xs body)"
  using assms
proof (induction xs)
  case Nil
  show ?case by (simp add: runs_pret)
next
  case (Cons x xs)
  show ?case
    unfolding for_each.simps
    by (rule runs_pseq) (simp_all add: Cons)
qed

lemma runs_engine_call:
  assumes "engine_ok E" and "P c"
  shows "runs P (engine_call E c)"
proof (rule runsI)
  fix h
  from assms(1) have "raises E h c = None" by (simp add: engine_ok_def)
  then have "engine_call E c h = (Inr (), h @ [c])" by (simp add: engine_call_def)
  with assms(2) show "\<exists>x new. engine_call E c h = (Inr x, h @ new) \<and> list_all P new"
    by (intro exI [of _ "()"] exI [of _ "[c]"]) simp
qed

lemma runs_tag_map_length:
  assumes "engine_ok E"
  shows "runs P (tag_map_length E t)"
proof (rule runsI)
  fix h
  from assms obtain n where "tag_map_len E h t = Inr n" unfolding engine_ok_def by blast
  then have "tag_map_length E t h = (Inr n, h @ [])" by (simp add: tag_map_length_def)
  then show "\<exists>x new. tag_map_length E t h = (Inr x, h @ new) \<and> list_all P new"
    by (intro exI [of _ n] exI [of _ "[]"]) simp
qed

lemma runs_mono:
  assumes "runs P m" and "\<And>c. P c \<Longrightarrow> Q c"
  shows "runs Q m"
proof (rule runsI)
  fix h
  from assms(1) obtain x new where m: "m h = (Inr x, h @ new)" and p: "list_all P new"
    by (rule runsD)
  from p assms(2) have "list_all Q new" by (simp add: list_all_iff)
  with m show "\<exists>x new. m h = (Inr x, h @ new) \<and> list_all Q new" by blast
qed

lemma call_within_mono:
  assumes "call_within L S c" and "\<And>a. S a \<Longrightarrow> S' a"
  shows "call_within L S' c"
  using assms by (cases c) (auto simp: call_within_def tag_within_def)

lemma site_tag_ok:
  assumes "tags_ok L"
  shows "\<exists>t. site_tag L (PInt i) (PInt j) = Inr t"
  using assms by (simp add: tags_ok_def site_tag_def wrap_index_def)

lemma set_range_up: "set (range_up a b) = {a..b - 1}"
  by (simp add: range_up_def)

lemma set_range_down: "set (range_down a b) = {b + 1..a}"
  by (simp add: range_down_def)

lemma pbind_lift: "pbind (lift (Inr v)) f = f v"
  by (rule ext) (simp add: pbind_def lift_def)

lemma runs_absorb_site:
  assumes "engine_ok E" and "tags_ok L" and "S c1" and "S c2"
  shows "runs (call_within L S) (absorb_site E L lt c1 c2)"
proof -
  obtain t1 where t1: "site_tag L (PInt (fst c1)) (PInt (snd c1)) = Inr t1"
    using site_tag_ok [OF assms(2)] by blast
  obtain t2 where t2: "site_tag L (PInt (fst c2)) (PInt (snd c2)) = Inr t2"
    using site_tag_ok [OF assms(2)] by blast
  have w: "tag_within L S t1" "tag_within L S t2"
    using assms(3,4) t1 t2 unfolding tag_within_def by blast+
  have "runs (call_within L S) (case lt of
         None \<Rightarrow> engine_call E (ContractTags t1 t2)
       | Some l \<Rightarrow> engine_call E (ContractBetween t1 t2 l))"
    using w by (cases lt) (simp_all add: runs_engine_call [OF assms(1)] call_within_def)
  then show ?thesis
    unfolding absorb_site_def t1 t2 pbind_lift .
qed

lemma runs_drop_inner_tag:
  assumes "engine_ok E" and "tags_ok L" and "S c1" and "S c2"
  shows "runs (call_within L S) (drop_inner_tag E L c1 c2)"
proof -
  obtain t2 where t2: "site_tag L (PInt (fst c2)) (PInt (snd c2)) = Inr t2"
    using site_tag_ok [OF assms(2)] by blast
  have "tag_within L S t2"
    using assms(4) t2 unfolding tag_within_def by blast
  then have w: "call_within L S (DropTags c1 t2)"
    using assms(3) by (simp add: call_within_def)
  have "runs (call_within L S)
          (if 1 < n then engine_call E (DropTags c1 t2) else pret ())" for n :: nat
    using w by (simp add: runs_engine_call [OF assms(1)] runs_pret)
  then show ?thesis
    unfolding drop_inner_tag_def t2 pbind_lift
    by (intro runs_pbind runs_tag_map_length [OF assms(1)])
qed


lemma canonize_row_valid:
  "canonize_row E L i ''right'' (Some yr) opts =
     for_each (range_up (min_of yr) (max_of yr))
       (\<lambda>j. engine_call E (CanonizeBetween (i, j) (i, j + 1) opts))"
  "canonize_row E L i ''left'' (Some yr) opts =
     for_each (range_down (max_of yr) (min_of yr))
       (\<lambda>j. engine_call E (CanonizeBetween (i, j) (i, j - 1) opts))"
  by (rule ext, simp add: canonize_row_def pseq_def pbind_def lift_def check_opt_def Let_def
      min_of_def max_of_def)+

lemma canonize_column_valid:
  "canonize_column E L j ''up'' (Some xr) opts =
     for_each (range_up (min_of xr) (max_of xr))
       (\<lambda>i. engine_call E (CanonizeBetween (i, j) (i + 1, j) opts))"
  "canonize_column E L j ''down'' (Some xr) opts =
     for_each (range_down (max_of xr) (min_of xr))
       (\<lambda>i. engine_call E (CanonizeBetween (i, j) (i - 1, j) opts))"
  by (rule ext, simp add: canonize_column_def pseq_def pbind_def lift_def check_opt_def Let_def
      min_of_def max_of_def)+

lemma runs_canonize_row:
  assumes "engine_ok E" and "sweep = ''right'' \<or> sweep = ''left''"
    and "\<And>j. min_of yr \<le> j \<Longrightarrow> j \<le> max_of yr \<Longrightarrow> S (i, j)"
  shows "runs (call_within L S) (canonize_row E L i sweep (Some yr) opts)"
  using assms(2)
proof
  assume "sweep = ''right''"
  then show ?thesis
    unfolding canonize_row_valid
    by (simp only: canonize_row_valid)
       (rule runs_for_each, rule runs_engine_call [OF assms(1)],
        simp add: set_range_up call_within_def assms(3))
next
  assume "sweep = ''left''"
  then show ?thesis
    by (simp only: canonize_row_valid)
       (rule runs_for_each, rule runs_engine_call [OF assms(1)],
        simp add: set_range_down call_within_def assms(3))
qed

lemma runs_compress_row:
  assumes "engine_ok E" and "sweep = ''right'' \<or> sweep = ''left''"
    and "\<And>j. min_of yr \<le> j \<Longrightarrow> j \<le> max_of yr \<Longrightarrow> S (i, j)"
  shows "runs (call_within L S) (compress_row E L i sweep (Some yr) opts)"
  using assms(2)
proof
  assume "sweep = ''right''"
  then show ?thesis
    by (simp only: compress_row_valid option.case)
       (rule runs_for_each, rule runs_engine_call [OF assms(1)],
        simp add: set_range_up call_within_def assms(3))
next
  assume "sweep = ''left''"
  then show ?thesis
    by (simp only: compress_row_valid option.case)
       (rule runs_for_each, rule runs_engine_call [OF assms(1)],
        simp add: set_range_down call_within_def assms(3))
qed

lemma runs_canonize_column:
  assumes "engine_ok E" and "sweep = ''up'' \<or> sweep = ''down''"
    and "\<And>i. min_of xr \<le> i \<Longrightarrow> i \<le> max_of xr \<Longrightarrow> S (i, j)"
  shows "runs (call_within L S) (canonize_column E L j sweep (Some xr) opts)"
  using assms(2)
proof
  assume "sweep = ''up''"
  then show ?thesis
    by (simp only: canonize_column_valid)
       (rule runs_for_each, rule runs_engine_call [OF assms(1)],
        simp add: set_range_up call_within_def assms(3))
next
  assume "sweep = ''down''"
  then show ?thesis
    by (simp only: canonize_column_valid)
       (rule runs_for_each, rule runs_engine_call [OF assms(1)],
        simp add: set_range_down call_within_def assms(3))
qed

lemma runs_compress_column:
  assumes "engine_ok E" and "sweep = ''up'' \<or> sweep = ''down''"
    and "\<And>i. min_of xr \<le> i \<Longrightarrow> i \<le> max_of xr \<Longrightarrow> S (i, j)"
  shows "runs (call_within L S) (compress_column E L j sweep (Some xr) opts)"
  using assms(2)
proof
  assume "sweep = ''up''"
  then show ?thesis
    by (simp only: compress_column_valid option.case)
       (rule runs_for_each, rule runs_engine_call [OF assms(1)],
        simp add: set_range_up call_within_def assms(3))
next
  assume "sweep = ''down''"
  then show ?thesis
    by (simp only: compress_column_valid option.case)
       (rule runs_for_each, rule runs_engine_call [OF assms(1)],
        simp add: set_range_down call_within_def assms(3))
qed


lemma runs_bottom_single:
  assumes "engine_ok E" and "tags_ok L" and "cs = ''right'' \<or> cs = ''left''"
  shows "runs (call_within L (in_box xr yr))
           (contract_boundary_from_bottom_single E L xr yr cz cs lt opts)"
proof -
  obtain cn where cn: "dict_get [(''left'', ''right''), (''right'', ''left'')] cs = Inr cn"
    and cn': "cn = ''right'' \<or> cn = ''left''"
    using assms(3) by (auto simp: dict_get_def)
  have line: "runs (call_within L (in_box xr yr))
      (pseq (for_each (range_up (min_of yr) (max_of yr + 1)) (\<lambda>v.
               absorb_site E L lt (u, v) (u + 1, v)))
         (pseq (if cz then canonize_row E L u cn (Some yr) [] else pret ())
               (compress_row E L u cs (Some yr) opts)))"
    if u: "u \<in> set (range_up (min_of xr) (max_of xr))" for u
  proof -
    from u have b: "min_of xr \<le> u \<and> u + 1 \<le> max_of xr"
      by (simp add: set_range_up)
    have a: "runs (call_within L (in_box xr yr)) (absorb_site E L lt (u, v) (u + 1, v))"
      if "v \<in> set (range_up (min_of yr) (max_of yr + 1))" for v
      using that b
      by (intro runs_absorb_site [OF assms(1,2)]) (simp_all add: set_range_up in_box_def)
    have c: "runs (call_within L (in_box xr yr)) (canonize_row E L u cn (Some yr) [])"
      using b by (intro runs_canonize_row [OF assms(1) cn']) (simp add: in_box_def)
    have d: "runs (call_within L (in_box xr yr)) (compress_row E L u cs (Some yr) opts)"
      using b by (intro runs_compress_row [OF assms(1) assms(3)]) (simp add: in_box_def)
    show ?thesis
      by (intro runs_pseq runs_for_each a) (simp_all add: c d runs_pret)
  qed
  show ?thesis
    unfolding contract_boundary_from_bottom_single_def cn pbind_lift
    by (rule runs_for_each) (rule line)
qed

lemma runs_bottom_multi:
  assumes "engine_ok E" and "tags_ok L" and "cs = ''right'' \<or> cs = ''left''"
  shows "runs (call_within L (in_box xr yr))
           (contract_boundary_from_bottom_multi E L xr yr lts cz cs opts)"
proof -
  have line: "runs (call_within L (in_box xr yr))
      (pseq (for_each (range_up (min_of yr) (max_of yr + 1)) (\<lambda>v.
               engine_call E (ContractSite (u, v))))
         (for_each lts (\<lambda>tag.
            pseq (contract_boundary_from_bottom_single E L (u, u + 1) yr cz cs (Some tag) opts)
                 (for_each (range_up (min_of yr) (max_of yr + 1)) (\<lambda>v.
                    drop_inner_tag E L (u, v) (u + 1, v))))))"
    if u: "u \<in> set (range_up (min_of xr) (max_of xr))" for u
  proof -
    from u have b: "min_of xr \<le> u \<and> u + 1 \<le> max_of xr"
      by (simp add: set_range_up)
    have a: "runs (call_within L (in_box xr yr)) (engine_call E (ContractSite (u, v)))"
      if "v \<in> set (range_up (min_of yr) (max_of yr + 1))" for v
      using that b
      by (intro runs_engine_call [OF assms(1)]) (simp add: set_range_up in_box_def call_within_def)
    have s: "runs (call_within L (in_box xr yr))
               (contract_boundary_from_bottom_single E L (u, u + 1) yr cz cs (Some tag) opts)" for tag
    proof (rule runs_mono [OF runs_bottom_single [OF assms]])
      fix c :: call
      assume "call_within L (in_box (u, u + 1) yr) c"
      then show "call_within L (in_box xr yr) c"
        by (rule call_within_mono) (use b in \<open>auto simp: in_box_def min_of_def max_of_def\<close>)
    qed
    have d: "runs (call_within L (in_box xr yr)) (drop_inner_tag E L (u, v) (u + 1, v))"
      if "v \<in> set (range_up (min_of yr) (max_of yr + 1))" for v
      using that b
      by (intro runs_drop_inner_tag [OF assms(1,2)]) (simp_all add: set_range_up in_box_def)
    show ?thesis
      by (intro runs_pseq runs_for_each a s d)
  qed
  show ?thesis
    unfolding contract_boundary_from_bottom_multi_def
    by (rule runs_for_each) (rule line)
qed

lemma absorb_from_bottom:
  assumes "engine_ok E" and "tags_ok L" and "cs = ''right'' \<or> cs = ''left''"
  shows "\<exists>new. contract_boundary_from_bottom E L xr (Some yr) cz cs lts True opts h
                 = (Inr (h @ new), h @ new)
               \<and> list_all (call_within L (in_box xr yr)) new"
proof -
  have "runs (call_within L (in_box xr yr))
          (case lts of
             None \<Rightarrow> contract_boundary_from_bottom_single E L xr yr cz cs None opts
           | Some l \<Rightarrow> contract_boundary_from_bottom_multi E L xr yr l cz cs opts)"
    by (cases lts) (simp_all add: runs_bottom_single [OF assms] runs_bottom_multi [OF assms])
  then obtain x new where
    "(case lts of
        None \<Rightarrow> contract_boundary_from_bottom_single E L xr yr cz cs None opts
      | Some l \<Rightarrow> contract_boundary_from_bottom_multi E L xr yr l cz cs opts) h
       = (Inr x, h @ new)"
    and "list_all (call_within L (in_box xr yr)) new"
    by (rule runsD)
  then show ?thesis
    by (auto simp: contract_boundary_from_bottom_def with_inplace_def)
qed

lemma runs_top_single:
  assumes "engine_ok E" and "tags_ok L" and "cs = ''right'' \<or> cs = ''left''"
  shows "runs (call_within L (in_box xr yr))
           (contract_boundary_from_top_single E L xr yr cz cs lt opts)"
proof -
  obtain cn where cn: "dict_get [(''left'', ''right''), (''right'', ''left'')] cs = Inr cn"
    and cn': "cn = ''right'' \<or> cn = ''left''"
    using assms(3) by (auto simp: dict_get_def)
  have line: "runs (call_within L (in_box xr yr))
      (pseq (for_each (range_up (min_of yr) (max_of yr + 1)) (\<lambda>v.
               absorb_site E L lt (u, v) (u - 1, v)))
         (pseq (if cz then canonize_row E L u cn (Some yr) [] else pret ())
               (compress_row E L u cs (Some yr) opts)))"
    if u: "u \<in> set (range_down (max_of xr) (min_of xr))" for u
  proof -
    from u have b: "min_of xr \<le> u - 1 \<and> u \<le> max_of xr"
      by (simp add: set_range_down)
    have a: "runs (call_within L (in_box xr yr)) (absorb_site E L lt (u, v) (u - 1, v))"
      if "v \<in> set (range_up (min_of yr) (max_of yr + 1))" for v
      using that b
      by (intro runs_absorb_site [OF assms(1,2)]) (simp_all add: set_range_up in_box_def)
    have c: "runs (call_within L (in_box xr yr)) (canonize_row E L u cn (Some yr) [])"
      using b by (intro runs_canonize_row [OF assms(1) cn']) (simp add: in_box_def)
    have d: "runs (call_within L (in_box xr yr)) (compress_row E L u cs (Some yr) opts)"
      using b by (intro runs_compress_row [OF assms(1) assms(3)]) (simp add: in_box_def)
    show ?thesis
      by (intro runs_pseq runs_for_each a) (simp_all add: c d runs_pret)
  qed
  show ?thesis
    unfolding contract_boundary_from_top_single_def cn pbind_lift
    by (rule runs_for_each) (rule line)
qed

lemma runs_top_multi:
  assumes "engine_ok E" and "tags_ok L" and "cs = ''right'' \<or> cs = ''left''"
  shows "runs (call_within L (in_box xr yr))
           (contract_boundary_from_top_multi E L xr yr lts cz cs opts)"
proof -
  have line: "runs (call_within L (in_box xr yr))
      (pseq (for_each (range_up (min_of yr) (max_of yr + 1)) (\<lambda>v.
               engine_call E (ContractSite (u, v))))
         (for_each lts (\<lambda>tag.
            pseq (contract_boundary_from_top_single E L (u, u - 1) yr cz cs (Some tag) opts)
                 (for_each (range_up (min_of yr) (max_of yr + 1)) (\<lambda>v.
                    drop_inner_tag E L (u, v) (u - 1, v))))))"
    if u: "u \<in> set (range_down (max_of xr) (min_of xr))" for u
  proof -
    from u have b: "min_of xr \<le> u - 1 \<and> u \<le> max_of xr"
      by (simp add: set_range_down)
    have a: "runs (call_within L (in_box xr yr)) (engine_call E (ContractSite (u, v)))"
      if "v \<in> set (range_up (min_of yr) (max_of yr + 1))" for v
      using that b
      by (intro runs_engine_call [OF assms(1)]) (simp add: set_range_up in_box_def call_within_def)
    have s: "runs (call_within L (in_box xr yr))
               (contract_boundary_from_top_single E L (u, u - 1) yr cz cs (Some tag) opts)" for tag
    proof (rule runs_mono [OF runs_top_single [OF assms]])
      fix c :: call
      assume "call_within L (in_box (u, u - 1) yr) c"
      then show "call_within L (in_box xr yr) c"
        by (rule call_within_mono) (use b in \<open>auto simp: in_box_def min_of_def max_of_def\<close>)
    qed
    have d: "runs (call_within L (in_box xr yr)) (drop_inner_tag E L (u, v) (u - 1, v))"
      if "v \<in> set (range_up (min_of yr) (max_of yr + 1))" for v
      using that b
      by (intro runs_drop_inner_tag [OF assms(1,2)]) (simp_all add: set_range_up in_box_def)
    show ?thesis
      by (intro runs_pseq runs_for_each a s d)
  qed
  show ?thesis
    unfolding contract_boundary_from_top_multi_def
    by (rule runs_for_each) (rule line)
qed

lemma absorb_from_top:
  assumes "engine_ok E" and "tags_ok L" and "cs = ''right'' \<or> cs = ''left''"
  shows "\<exists>new. contract_boundary_from_top E L xr (Some yr) cz cs lts True opts h
                 = (Inr (h @ new), h @ new)
               \<and> list_all (call_within L (in_box xr yr)) new"
proof -
  have "runs (call_within L (in_box xr yr))
          (case lts of
             None \<Rightarrow> contract_boundary_from_top_single E L xr yr cz cs None opts
           | Some l \<Rightarrow> contract_boundary_from_top_multi E L xr yr l cz cs opts)"
    by (cases lts) (simp_all add: runs_top_single [OF assms] runs_top_multi [OF assms])
  then obtain x new where
    "(case lts of
        None \<Rightarrow> contract_boundary_from_top_single E L xr yr cz cs None opts
      | Some l \<Rightarrow> contract_boundary_from_top_multi E L xr yr l cz cs opts) h
       = (Inr x, h @ new)"
    and "list_all (call_within L (in_box xr yr)) new"
    by (rule runsD)
  then show ?thesis
    by (auto simp: contract_boundary_from_top_def with_inplace_def)
qed

lemma runs_left_single:
  assumes "engine_ok E" and "tags_ok L" and "cs = ''up'' \<or> cs = ''down''"
  shows "runs (call_within L (in_box xr yr))
           (contract_boundary_from_left_single E L yr xr cz cs lt opts)"
proof -
  obtain cn where cn: "dict_get [(''up'', ''down''), (''down'', ''up'')] cs = Inr cn"
    and cn': "cn = ''up'' \<or> cn = ''down''"
    using assms(3) by (auto simp: dict_get_def)
  have line: "runs (call_within L (in_box xr yr))
      (pseq (for_each (range_up (min_of xr) (max_of xr + 1)) (\<lambda>v.
               absorb_site E L lt (v, u) (v, u + 1)))
         (pseq (if cz then canonize_column E L u cn (Some xr) [] else pret ())
               (compress_column E L u cs (Some xr) opts)))"
    if u: "u \<in> set (range_up (min_of yr) (max_of yr))" for u
  proof -
    from u have b: "min_of yr \<le> u \<and> u + 1 \<le> max_of yr"
      by (simp add: set_range_up)
    have a: "runs (call_within L (in_box xr yr)) (absorb_site E L lt (v, u) (v, u + 1))"
      if "v \<in> set (range_up (min_of xr) (max_of xr + 1))" for v
      using that b
      by (intro runs_absorb_site [OF assms(1,2)]) (simp_all add: set_range_up in_box_def)
    have c: "runs (call_within L (in_box xr yr)) (canonize_column E L u cn (Some xr) [])"
      using b by (intro runs_canonize_column [OF assms(1) cn']) (simp add: in_box_def)
    have d: "runs (call_within L (in_box xr yr)) (compress_column E L u cs (Some xr) opts)"
      using b by (intro runs_compress_column [OF assms(1) assms(3)]) (simp add: in_box_def)
    show ?thesis
      by (intro runs_pseq runs_for_each a) (simp_all add: c d runs_pret)
  qed
  show ?thesis
    unfolding contract_boundary_from_left_single_def cn pbind_lift
    by (rule runs_for_each) (rule line)
qed

lemma runs_left_multi:
  assumes "engine_ok E" and "tags_ok L" and "cs = ''up'' \<or> cs = ''down''"
  shows "runs (call_within L (in_box xr yr))
           (contract_boundary_from_left_multi E L yr xr lts cz cs opts)"
proof -
  have line: "runs (call_within L (in_box xr yr))
      (pseq (for_each (range_up (min_of xr) (max_of xr + 1)) (\<lambda>v.
               engine_call E (ContractSite (v, u))))
         (for_each lts (\<lambda>tag.
            pseq (contract_boundary_from_left_single E L (u, u + 1) xr cz cs (Some tag) opts)
                 (for_each (range_up (min_of xr) (max_of xr + 1)) (\<lambda>v.
                    drop_inner_tag E L (v, u) (v, u + 1))))))"
    if u: "u \<in> set (range_up (min_of yr) (max_of yr))" for u
  proof -
    from u have b: "min_of yr \<le> u \<and> u + 1 \<le> max_of yr"
      by (simp add: set_range_up)
    have a: "runs (call_within L (in_box xr yr)) (engine_call E (ContractSite (v, u)))"
      if "v \<in> set (range_up (min_of xr) (max_of xr + 1))" for v
      using that b
      by (intro runs_engine_call [OF assms(1)]) (simp add: set_range_up in_box_def call_within_def)
    have s: "runs (call_within L (in_box xr yr))
               (contract_boundary_from_left_single E L (u, u + 1) xr cz cs (Some tag) opts)" for tag
    proof (rule runs_mono [OF runs_left_single [OF assms]])
      fix c :: call
      assume "call_within L (in_box xr (u, u + 1)) c"
      then show "call_within L (in_box xr yr) c"
        by (rule call_within_mono) (use b in \<open>auto simp: in_box_def min_of_def max_of_def\<close>)
    qed
    have d: "runs (call_within L (in_box xr yr)) (drop_inner_tag E L (v, u) (v, u + 1))"
      if "v \<in> set (range_up (min_of xr) (max_of xr + 1))" for v
      using that b
      by (intro runs_drop_inner_tag [OF assms(1,2)]) (simp_all add: set_range_up in_box_def)
    show ?thesis
      by (intro runs_pseq runs_for_each a s d)
  qed
  show ?thesis
    unfolding contract_boundary_from_left_multi_def
    by (rule runs_for_each) (rule line)
qed

lemma absorb_from_left:
  assumes "engine_ok E" and "tags_ok L" and "cs = ''up'' \<or> cs = ''down''"
  shows "\<exists>new. contract_boundary_from_left E L yr (Some xr) cz cs lts True opts h
                 = (Inr (h @ new), h @ new)
               \<and> list_all (call_within L (in_box xr yr)) new"
proof -
  have "runs (call_within L (in_box xr yr))
          (case lts of
             None \<Rightarrow> contract_boundary_from_left_single E L yr xr cz cs None opts
           | Some l \<Rightarrow> contract_boundary_from_left_multi E L yr xr l cz cs opts)"
    by (cases lts) (simp_all add: runs_left_single [OF assms] runs_left_multi [OF assms])
  then obtain x new where
    "(case lts of
        None \<Rightarrow> contract_boundary_from_left_single E L yr xr cz cs None opts
      | Some l \<Rightarrow> contract_boundary_from_left_multi E L yr xr l cz cs opts) h
       = (Inr x, h @ new)"
    and "list_all (call_within L (in_box xr yr)) new"
    by (rule runsD)
  then show ?thesis
    by (auto simp: contract_boundary_from_left_def with_inplace_def)
qed

lemma runs_right_single:
  assumes "engine_ok E" and "tags_ok L" and "cs = ''up'' \<or> cs = ''down''"
  shows "runs (call_within L (in_box xr yr))
           (contract_boundary_from_right_single E L yr xr cz cs lt opts)"
proof -
  obtain cn where cn: "dict_get [(''up'', ''down''), (''down'', ''up'')] cs = Inr cn"
    and cn': "cn = ''up'' \<or> cn = ''down''"
    using assms(3) by (auto simp: dict_get_def)
  have line: "runs (call_within L (in_box xr yr))
      (pseq (for_each (range_up (min_of xr) (max_of xr + 1)) (\<lambda>v.
               absorb_site E L lt (v, u) (v, u - 1)))
         (pseq (if cz then canonize_column E L u cn (Some xr) [] else pret ())
               (compress_column E L u cs (Some xr) opts)))"
    if u: "u \<in> set (range_down (max_of yr) (min_of yr))" for u
  proof -
    from u have b: "min_of yr \<le> u - 1 \<and> u \<le> max_of yr"
      by (simp add: set_range_down)
    have a: "runs (call_within L (in_box xr yr)) (absorb_site E L lt (v, u) (v, u - 1))"
      if "v \<in> set (range_up (min_of xr) (max_of xr + 1))" for v
      using that b
      by (intro runs_absorb_site [OF assms(1,2)]) (simp_all add: set_range_up in_box_def)
    have c: "runs (call_within L (in_box xr yr)) (canonize_column E L u cn (Some xr) [])"
      using b by (intro runs_canonize_column [OF assms(1) cn']) (simp add: in_box_def)
    have d: "runs (call_within L (in_box xr yr)) (compress_column E L u cs (Some xr) opts)"
      using b by (intro runs_compress_column [OF assms(1) assms(3)]) (simp add: in_box_def)
    show ?thesis
      by (intro runs_pseq runs_for_each a) (simp_all add: c d runs_pret)
  qed
  show ?thesis
    unfolding contract_boundary_from_right_single_def cn pbind_lift
    by (rule runs_for_each) (rule line)
qed

lemma runs_right_multi:
  assumes "engine_ok E" and "tags_ok L" and "cs = ''up'' \<or> cs = ''down''"
  shows "runs (call_within L (in_box xr yr))
           (contract_boundary_from_right_multi E L yr xr lts cz cs opts)"
proof -
  have line: "runs (call_within L (in_box xr yr))
      (pseq (for_each (range_up (min_of xr) (max_of xr + 1)) (\<lambda>v.
               engine_call E (ContractSite (v, u))))
         (for_each lts (\<lambda>tag.
            pseq (contract_boundary_from_right_single E L (u, u - 1) xr cz cs (Some tag) opts)
                 (for_each (range_up (min_of xr) (max_of xr + 1)) (\<lambda>v.
                    drop_inner_tag E L (v, u) (v, u - 1))))))"
    if u: "u \<in> set (range_down (max_of yr) (min_of yr))" for u
  proof -
    from u have b: "min_of yr \<le> u - 1 \<and> u \<le> max_of yr"
      by (simp add: set_range_down)
    have a: "runs (call_within L (in_box xr yr)) (engine_call E (ContractSite (v, u)))"
      if "v \<in> set (range_up (min_of xr) (max_of xr + 1))" for v
      using that b
      by (intro runs_engine_call [OF assms(1)]) (simp add: set_range_up in_box_def call_within_def)
    have s: "runs (call_within L (in_box xr yr))
               (contract_boundary_from_right_single E L (u, u - 1) xr cz cs (Some tag) opts)" for tag
    proof (rule runs_mono [OF runs_right_single [OF assms]])
      fix c :: call
      assume "call_within L (in_box xr (u, u - 1)) c"
      then show "call_within L (in_box xr yr) c"
        by (rule call_within_mono) (use b in \<open>auto simp: in_box_def min_of_def max_of_def\<close>)
    qed
    have d: "runs (call_within L (in_box xr yr)) (drop_inner_tag E L (v, u) (v, u - 1))"
      if "v \<in> set (range_up (min_of xr) (max_of xr + 1))" for v
      using that b
      by (intro runs_drop_inner_tag [OF assms(1,2)]) (simp_all add: set_range_up in_box_def)
    show ?thesis
      by (intro runs_pseq runs_for_each a s d)
  qed
  show ?thesis
    unfolding contract_boundary_from_right_multi_def
    by (rule runs_for_each) (rule line)
qed

lemma absorb_from_right:
  assumes "engine_ok E" and "tags_ok L" and "cs = ''up'' \<or> cs = ''down''"
  shows "\<exists>new. contract_boundary_from_right E L yr (Some xr) cz cs lts True opts h
                 = (Inr (h @ new), h @ new)
               \<and> list_all (call_within L (in_box xr yr)) new"
proof -
  have "runs (call_within L (in_box xr yr))
          (case lts of
             None \<Rightarrow> contract_boundary_from_right_single E L yr xr cz cs None opts
           | Some l \<Rightarrow> contract_boundary_from_right_multi E L yr xr l cz cs opts)"
    by (cases lts) (simp_all add: runs_right_single [OF assms] runs_right_multi [OF assms])
  then obtain x new where
    "(case lts of
        None \<Rightarrow> contract_boundary_from_right_single E L yr xr cz cs None opts
      | Some l \<Rightarrow> contract_boundary_from_right_multi E L yr xr l cz cs opts) h
       = (Inr x, h @ new)"
    and "list_all (call_within L (in_box xr yr)) new"
    by (rule runsD)
  then show ?thesis
    by (auto simp: contract_boundary_from_right_def with_inplace_def)
qed

lemma visit_b_absorb:
  assumes "engine_ok E" and "tags_ok L"
    and "case stops of None \<Rightarrow> True | Some r \<Rightarrow> bottom s + 1 < stop_i_min r"
  shows "\<exists>new. cb_visit E L C stops (CHR ''b'') s
            = (Inr (), s\<lparr>bottom := bottom s + 1, tn := tn s @ new, steps := steps s + 1\<rparr>)
          \<and> list_all (call_within L (in_box (bottom s, bottom s + 1) (left s, right s))) new"
proof -
  from absorb_from_bottom [OF assms(1,2), of "''left''"]
  obtain new where "contract_boundary_from_bottom E L (bottom s, bottom s + 1)
      (Some (left s, right s)) (canonize C) ''left'' (layer_tags C) True (compress_opts C) (tn s)
      = (Inr (tn s @ new), tn s @ new)"
    and "list_all (call_within L (in_box (bottom s, bottom s + 1) (left s, right s))) new"
    by blast
  with assms(3) show ?thesis
    unfolding cb_visit_b by auto
qed

lemma visit_l_absorb:
  assumes "engine_ok E" and "tags_ok L"
    and "case stops of None \<Rightarrow> True | Some r \<Rightarrow> left s + 1 < stop_j_min r"
  shows "\<exists>new. cb_visit E L C stops (CHR ''l'') s
            = (Inr (), s\<lparr>left := left s + 1, tn := tn s @ new, steps := steps s + 1\<rparr>)
          \<and> list_all (call_within L (in_box (bottom s, top' s) (left s, left s + 1))) new"
proof -
  from absorb_from_left [OF assms(1,2), of "''up''"]
  obtain new where "contract_boundary_from_left E L (left s, left s + 1)
      (Some (bottom s, top' s)) (canonize C) ''up'' (layer_tags C) True (compress_opts C) (tn s)
      = (Inr (tn s @ new), tn s @ new)"
    and "list_all (call_within L (in_box (bottom s, top' s) (left s, left s + 1))) new"
    by blast
  with assms(3) show ?thesis
    unfolding cb_visit_l by auto
qed

lemma visit_t_absorb:
  assumes "engine_ok E" and "tags_ok L"
    and "case stops of None \<Rightarrow> True | Some r \<Rightarrow> top' s - 1 > stop_i_max r"
  shows "\<exists>new. cb_visit E L C stops (CHR ''t'') s
            = (Inr (), s\<lparr>top' := top' s - 1, tn := tn s @ new, steps := steps s + 1\<rparr>)
          \<and> list_all (call_within L (in_box (top' s, top' s - 1) (left s, right s))) new"
proof -
  from absorb_from_top [OF assms(1,2), of "''right''"]
  obtain new where "contract_boundary_from_top E L (top' s, top' s - 1)
      (Some (left s, right s)) (canonize C) ''right'' (layer_tags C) True (compress_opts C) (tn s)
      = (Inr (tn s @ new), tn s @ new)"
    and "list_all (call_within L (in_box (top' s, top' s - 1) (left s, right s))) new"
    by blast
  with assms(3) show ?thesis
    unfolding cb_visit_t by auto
qed

lemma visit_r_absorb:
  assumes "engine_ok E" and "tags_ok L"
    and "case stops of None \<Rightarrow> True | Some r \<Rightarrow> right s - 1 > stop_j_max r"
  shows "\<exists>new. cb_visit E L C stops (CHR ''r'') s
            = (Inr (), s\<lparr>right := right s - 1, tn := tn s @ new, steps := steps s + 1\<rparr>)
          \<and> list_all (call_within L (in_box (bottom s, top' s) (right s, right s - 1))) new"
proof -
  from absorb_from_right [OF assms(1,2), of "''down''"]
  obtain new where "contract_boundary_from_right E L (right s, right s - 1)
      (Some (bottom s, top' s)) (canonize C) ''down'' (layer_tags C) True (compress_opts C) (tn s)
      = (Inr (tn s @ new), tn s @ new)"
    and "list_all (call_within L (in_box (bottom s, top' s) (right s, right s - 1))) new"
    by blast
  with assms(3) show ?thesis
    unfolding cb_visit_r by auto
qed






lemma quiet_engine_ok: "engine_ok quiet_engine"
  by (simp add: engine_ok_def quiet_engine_def)

lemma py_format_site:
  "py_format ''I{},{}'' [a, b] = Inr (''I'' @ str_arg a @ '','' @ str_arg b)"
  by simp

lemma peps_lattice_tags_ok: "0 < lx \<Longrightarrow> 0 < ly \<Longrightarrow> tags_ok (peps_lattice lx ly)"
  by (simp add: tags_ok_def peps_lattice_def py_format_site)


subsection \<open>The sweep around one protected site\<close>

lemma site_tag_inj:
  assumes "distinct (site_tags L)" and "in_lattice L a" and "in_lattice L b"
    and "site_tag L (PInt (fst a)) (PInt (snd a)) = site_tag L (PInt (fst b)) (PInt (snd b))"
  shows "a = b"
proof -
  let ?f = "\<lambda>(i, j). site_tag L (PInt (int i)) (PInt (int j))"
  let ?xs = "List.product [0..<Lx L] [0..<Ly L]"
  have inj: "inj_on ?f (set ?xs)"
    using assms(1) unfolding site_tags_def by (simp add: distinct_map)
  let ?a = "(nat (fst a), nat (snd a))" and ?b = "(nat (fst b), nat (snd b))"
  have mem: "?a \<in> set ?xs" "?b \<in> set ?xs"
    using assms(2,3) by (auto simp: in_lattice_def)
  have eq: "?f ?a = ?f ?b"
    using assms(2,3,4) by (simp add: in_lattice_def)
  from inj_onD [OF inj eq mem] have "?a = ?b" .
  with assms(2,3) show ?thesis
    by (auto simp: in_lattice_def prod_eq_iff)
qed

lemma wrap_coo_in_lattice: "in_lattice L a \<Longrightarrow> wrap_coo L a = a"
  by (simp add: in_lattice_def wrap_coo_def prod_eq_iff)

lemma tag_within_avoid:
  assumes "tag_within L S t" and "\<And>a. S a \<Longrightarrow> in_lattice L a \<and> a \<noteq> c0"
    and "in_lattice L c0" and "distinct (site_tags L)"
  shows "site_tag L (PInt (fst c0)) (PInt (snd c0)) \<noteq> Inr t"
proof
  assume t: "site_tag L (PInt (fst c0)) (PInt (snd c0)) = Inr t"
  from assms(1) obtain a where a: "S a" "site_tag L (PInt (fst a)) (PInt (snd a)) = Inr t"
    unfolding tag_within_def by blast
  from assms(2) [OF a(1)] have "in_lattice L a" "a \<noteq> c0" by simp_all
  moreover from site_tag_inj [OF assms(4) \<open>in_lattice L a\<close> assms(3)] a(2) t have "a = c0"
    by simp
  ultimately show False by simp
qed

lemma within_avoid:
  assumes "call_within L S c" and "\<And>a. S a \<Longrightarrow> in_lattice L a \<and> a \<noteq> c0"
    and "in_lattice L c0" and "distinct (site_tags L)"
  shows "\<not> touches L c0 c"
proof -
  have tw: "site_tag L (PInt (fst c0)) (PInt (snd c0)) \<noteq> Inr t" if "tag_within L S t" for t
    by (rule tag_within_avoid [where S = S]) (use that assms(2,3,4) in simp_all)
  have co: "wrap_coo L a \<noteq> c0" if "S a" for a
    using assms(2) [OF that] by (simp add: wrap_coo_in_lattice)
  show ?thesis
  proof (cases c)
    case (CanonizeBetween a b opts)
    with assms(1) co show ?thesis by (simp add: call_within_def touches_def)
  next
    case (CompressBetween a b opts)
    with assms(1) co show ?thesis by (simp add: call_within_def touches_def)
  next
    case (ContractTags t1 t2)
    with assms(1) tw show ?thesis by (simp add: call_within_def touches_def)
  next
    case (ContractBetween t1 t2 lt)
    with assms(1) tw show ?thesis by (simp add: call_within_def touches_def)
  next
    case (ContractSite a)
    with assms(1) co show ?thesis by (simp add: call_within_def touches_def)
  next
    case (DropTags a t)
    with assms(1) co tw show ?thesis by (simp add: call_within_def touches_def)
  next
    case ContractAll
    with assms(1) show ?thesis by (simp add: call_within_def)
  qed
qed

lemma list_within_avoid:
  assumes "list_all (call_within L S) new" and "\<And>a. S a \<Longrightarrow> in_lattice L a \<and> a \<noteq> c0"
    and "in_lattice L c0" and "distinct (site_tags L)"
  shows "list_all (\<lambda>c. \<not> touches L c0 c) new"
proof -
  have "\<not> touches L c0 c" if "call_within L S c" for c
    by (rule within_avoid [where S = S]) (use that assms(2,3,4) in simp_all)
  with assms(1) show ?thesis by (simp add: list_all_iff)
qed

lemma adv_low: "int (min (nat (x - 1)) v) + 1 < x \<longleftrightarrow> v < nat (x - 1)"
  by (auto simp: min_def)

lemma adv_high:
  "(m - 1 - int (min (nat (m - 2 - x)) v)) - 1 > x \<longleftrightarrow> v < nat (m - 2 - x)"
  by (auto simp: min_def)

lemma div4_0:
  assumes "k mod 4 = (0 :: nat)"
  shows "(Suc k + 3) div 4 = Suc ((k + 3) div 4)" "(Suc k + 2) div 4 = (k + 2) div 4"
    "(Suc k + 1) div 4 = (k + 1) div 4" "Suc k div 4 = k div 4"
  using assms by presburger+

lemma div4_1:
  assumes "k mod 4 = (1 :: nat)"
  shows "(Suc k + 3) div 4 = (k + 3) div 4" "(Suc k + 2) div 4 = Suc ((k + 2) div 4)"
    "(Suc k + 1) div 4 = (k + 1) div 4" "Suc k div 4 = k div 4"
  using assms by presburger+

lemma div4_2:
  assumes "k mod 4 = (2 :: nat)"
  shows "(Suc k + 3) div 4 = (k + 3) div 4" "(Suc k + 2) div 4 = (k + 2) div 4"
    "(Suc k + 1) div 4 = Suc ((k + 1) div 4)" "Suc k div 4 = k div 4"
  using assms by presburger+

lemma div4_3:
  assumes "k mod 4 = (3 :: nat)"
  shows "(Suc k + 3) div 4 = (k + 3) div 4" "(Suc k + 2) div 4 = (k + 2) div 4"
    "(Suc k + 1) div 4 = (k + 1) div 4" "Suc k div 4 = Suc (k div 4)"
  using assms by presburger+

lemma low_bounds:
  fixes x :: int
  assumes "0 \<le> x"
  shows "0 \<le> int (min (nat (x - 1)) v)" and "int (min (nat (x - 1)) v) \<le> x"
  using assms by (auto simp: min_def)

lemma high_bounds:
  fixes x :: int
  assumes "x < m"
  shows "x \<le> m - 1 - int (min (nat (m - 2 - x)) v)"
    and "m - 1 - int (min (nat (m - 2 - x)) v) \<le> m - 1"
  using assms by (auto simp: min_def)

lemma closed_bounds:
  assumes "around_closed L c0 h k s" and "in_lattice L c0"
  shows "0 \<le> bottom s" "bottom s \<le> fst c0" "fst c0 \<le> top' s" "top' s \<le> int (Lx L) - 1"
    "0 \<le> left s" "left s \<le> snd c0" "snd c0 \<le> right s" "right s \<le> int (Ly L) - 1"
proof -
  from assms(2) have c: "0 \<le> fst c0" "fst c0 < int (Lx L)" "0 \<le> snd c0" "snd c0 < int (Ly L)"
    by (simp_all add: in_lattice_def)
  from assms(1) have e: "bottom s = int (min (nat (fst c0 - 1)) ((k + 3) div 4))"
    "top' s = int (Lx L) - 1 - int (min (nat (int (Lx L) - 2 - fst c0)) ((k + 1) div 4))"
    "left s = int (min (nat (snd c0 - 1)) ((k + 2) div 4))"
    "right s = int (Ly L) - 1 - int (min (nat (int (Ly L) - 2 - snd c0)) (k div 4))"
    unfolding around_closed_def need_b_def need_t_def need_l_def need_r_def by blast+
  show "0 \<le> bottom s" "bottom s \<le> fst c0"
    unfolding e by (rule low_bounds [OF c(1)])+
  show "fst c0 \<le> top' s" "top' s \<le> int (Lx L) - 1"
    unfolding e by (rule high_bounds [OF c(2)])+
  show "0 \<le> left s" "left s \<le> snd c0"
    unfolding e by (rule low_bounds [OF c(3)])+
  show "snd c0 \<le> right s" "right s \<le> int (Ly L) - 1"
    unfolding e by (rule high_bounds [OF c(4)])+
qed

lemma closed_step_b:
  assumes "engine_ok E" and "tags_ok L" and "distinct (site_tags L)" and "in_lattice L c0"
    and cl: "around_closed L c0 h (pos s) s" and k: "pos s mod 4 = 0"
  shows "\<exists>s'. cb_visit E L C (Some (site_box c0)) (CHR ''b'') s = (Inr (), s')
            \<and> pos s' = pos s \<and> around_closed L c0 h (Suc (pos s)) s'"
proof -
  note b = closed_bounds [OF cl assms(4)]
  from cl have e: "bottom s = int (min (need_b c0) ((pos s + 3) div 4))"
    and rest: "top' s = int (Lx L) - 1 - int (min (need_t L c0) ((pos s + 1) div 4))"
      "left s = int (min (need_l c0) ((pos s + 2) div 4))"
      "right s = int (Ly L) - 1 - int (min (need_r L c0) (pos s div 4))"
    and fl: "reached_stop s =
          [(CHR ''b'', need_b c0 < (pos s + 3) div 4), (CHR ''l'', need_l c0 < (pos s + 2) div 4),
           (CHR ''t'', need_t L c0 < (pos s + 1) div 4), (CHR ''r'', need_r L c0 < pos s div 4)]"
    unfolding around_closed_def by simp_all
  from cl obtain old where old: "tn s = h @ old" "list_all (\<lambda>c. \<not> touches L c0 c) old"
    unfolding around_closed_def by blast
  have g: "bottom s + 1 < fst c0 \<longleftrightarrow> (pos s + 3) div 4 < need_b c0"
    unfolding e need_b_def by (rule adv_low)
  show ?thesis
  proof (cases "(pos s + 3) div 4 < need_b c0")
    case True
    with g have guard: "bottom s + 1 < fst c0" by simp
    then have "case Some (site_box c0) of None \<Rightarrow> True | Some r \<Rightarrow> bottom s + 1 < stop_i_min r"
      by (simp add: site_box_def)
    from visit_b_absorb [OF assms(1,2) this, of C]
    obtain new where v: "cb_visit E L C (Some (site_box c0)) (CHR ''b'') s
            = (Inr (), s\<lparr>bottom := bottom s + 1, tn := tn s @ new, steps := steps s + 1\<rparr>)"
      and w: "list_all (call_within L (in_box (bottom s, bottom s + 1) (left s, right s))) new"
      by blast
    have "list_all (\<lambda>c. \<not> touches L c0 c) new"
      by (rule list_within_avoid [OF w _ assms(4,3)])
         (use b guard in \<open>auto simp: in_box_def in_lattice_def min_of_def max_of_def\<close>)
    with old have hist: "\<exists>new'. tn s @ new = h @ new' \<and> list_all (\<lambda>c. \<not> touches L c0 c) new'"
      by (intro exI [of _ "old @ new"]) simp
    have "around_closed L c0 h (Suc (pos s))
            (s\<lparr>bottom := bottom s + 1, tn := tn s @ new, steps := steps s + 1\<rparr>)"
      unfolding around_closed_def div4_0 [OF k]
      using True e rest fl hist by (simp add: min_def)
    with v show ?thesis by simp
  next
    case False
    with g have "\<not> bottom s + 1 < fst c0" by simp
    then have v: "cb_visit E L C (Some (site_box c0)) (CHR ''b'') s
            = (Inr (), s\<lparr>reached_stop := dict_set (CHR ''b'') True (reached_stop s)\<rparr>)"
      unfolding cb_visit_b by (simp add: site_box_def)
    have "around_closed L c0 h (Suc (pos s))
            (s\<lparr>reached_stop := dict_set (CHR ''b'') True (reached_stop s)\<rparr>)"
      unfolding around_closed_def div4_0 [OF k]
      using False e rest fl old by (auto simp: min_def)
    with v show ?thesis by simp
  qed
qed

lemma closed_step_l:
  assumes "engine_ok E" and "tags_ok L" and "distinct (site_tags L)" and "in_lattice L c0"
    and cl: "around_closed L c0 h (pos s) s" and k: "pos s mod 4 = 1"
  shows "\<exists>s'. cb_visit E L C (Some (site_box c0)) (CHR ''l'') s = (Inr (), s')
            \<and> pos s' = pos s \<and> around_closed L c0 h (Suc (pos s)) s'"
proof -
  note b = closed_bounds [OF cl assms(4)]
  from cl have e: "left s = int (min (need_l c0) ((pos s + 2) div 4))"
    and rest: "bottom s = int (min (need_b c0) ((pos s + 3) div 4))"
      "top' s = int (Lx L) - 1 - int (min (need_t L c0) ((pos s + 1) div 4))"
      "right s = int (Ly L) - 1 - int (min (need_r L c0) (pos s div 4))"
    and fl: "reached_stop s =
          [(CHR ''b'', need_b c0 < (pos s + 3) div 4), (CHR ''l'', need_l c0 < (pos s + 2) div 4),
           (CHR ''t'', need_t L c0 < (pos s + 1) div 4), (CHR ''r'', need_r L c0 < pos s div 4)]"
    unfolding around_closed_def by simp_all
  from cl obtain old where old: "tn s = h @ old" "list_all (\<lambda>c. \<not> touches L c0 c) old"
    unfolding around_closed_def by blast
  have g: "left s + 1 < snd c0 \<longleftrightarrow> (pos s + 2) div 4 < need_l c0"
    unfolding e need_l_def by (rule adv_low)
  show ?thesis
  proof (cases "(pos s + 2) div 4 < need_l c0")
    case True
    with g have guard: "left s + 1 < snd c0" by simp
    then have "case Some (site_box c0) of None \<Rightarrow> True | Some r \<Rightarrow> left s + 1 < stop_j_min r"
      by (simp add: site_box_def)
    from visit_l_absorb [OF assms(1,2) this, of C]
    obtain new where v: "cb_visit E L C (Some (site_box c0)) (CHR ''l'') s
            = (Inr (), s\<lparr>left := left s + 1, tn := tn s @ new, steps := steps s + 1\<rparr>)"
      and w: "list_all (call_within L (in_box (bottom s, top' s) (left s, left s + 1))) new"
      by blast
    have "list_all (\<lambda>c. \<not> touches L c0 c) new"
      by (rule list_within_avoid [OF w _ assms(4,3)])
         (use b guard in \<open>auto simp: in_box_def in_lattice_def min_of_def max_of_def\<close>)
    with old have hist: "\<exists>new'. tn s @ new = h @ new' \<and> list_all (\<lambda>c. \<not> touches L c0 c) new'"
      by (intro exI [of _ "old @ new"]) simp
    have "around_closed L c0 h (Suc (pos s))
            (s\<lparr>left := left s + 1, tn := tn s @ new, steps := steps s + 1\<rparr>)"
      unfolding around_closed_def div4_1 [OF k]
      using True e rest fl hist by (simp add: min_def)
    with v show ?thesis by simp
  next
    case False
    with g have "\<not> left s + 1 < snd c0" by simp
    then have v: "cb_visit E L C (Some (site_box c0)) (CHR ''l'') s
            = (Inr (), s\<lparr>reached_stop := dict_set (CHR ''l'') True (reached_stop s)\<rparr>)"
      unfolding cb_visit_l by (simp add: site_box_def)
    have "around_closed L c0 h (Suc (pos s))
            (s\<lparr>reached_stop := dict_set (CHR ''l'') True (reached_stop s)\<rparr>)"
      unfolding around_closed_def div4_1 [OF k]
      using False e rest fl old by (auto simp: min_def)
    with v show ?thesis by simp
  qed
qed

lemma closed_step_t:
  assumes "engine_ok E" and "tags_ok L" and "distinct (site_tags L)" and "in_lattice L c0"
    and cl: "around_closed L c0 h (pos s) s" and k: "pos s mod 4 = 2"
  shows "\<exists>s'. cb_visit E L C (Some (site_box c0)) (CHR ''t'') s = (Inr (), s')
            \<and> pos s' = pos s \<and> around_closed L c0 h (Suc (pos s)) s'"
proof -
  note b = closed_bounds [OF cl assms(4)]
  from cl have e: "top' s = int (Lx L) - 1 - int (min (need_t L c0) ((pos s + 1) div 4))"
    and rest: "bottom s = int (min (need_b c0) ((pos s + 3) div 4))"
      "left s = int (min (need_l c0) ((pos s + 2) div 4))"
      "right s = int (Ly L) - 1 - int (min (need_r L c0) (pos s div 4))"
    and fl: "reached_stop s =
          [(CHR ''b'', need_b c0 < (pos s + 3) div 4), (CHR ''l'', need_l c0 < (pos s + 2) div 4),
           (CHR ''t'', need_t L c0 < (pos s + 1) div 4), (CHR ''r'', need_r L c0 < pos s div 4)]"
    unfolding around_closed_def by simp_all
  from cl obtain old where old: "tn s = h @ old" "list_all (\<lambda>c. \<not> touches L c0 c) old"
    unfolding around_closed_def by blast
  have g: "top' s - 1 > fst c0 \<longleftrightarrow> (pos s + 1) div 4 < need_t L c0"
    unfolding e need_t_def by (rule adv_high)
  show ?thesis
  proof (cases "(pos s + 1) div 4 < need_t L c0")
    case True
    with g have guard: "top' s - 1 > fst c0" by simp
    then have "case Some (site_box c0) of None \<Rightarrow> True | Some r \<Rightarrow> top' s - 1 > stop_i_max r"
      by (simp add: site_box_def)
    from visit_t_absorb [OF assms(1,2) this, of C]
    obtain new where v: "cb_visit E L C (Some (site_box c0)) (CHR ''t'') s
            = (Inr (), s\<lparr>top' := top' s - 1, tn := tn s @ new, steps := steps s + 1\<rparr>)"
      and w: "list_all (call_within L (in_box (top' s, top' s - 1) (left s, right s))) new"
      by blast
    have "list_all (\<lambda>c. \<not> touches L c0 c) new"
      by (rule list_within_avoid [OF w _ assms(4,3)])
         (use b guard in \<open>auto simp: in_box_def in_lattice_def min_of_def max_of_def\<close>)
    with old have hist: "\<exists>new'. tn s @ new = h @ new' \<and> list_all (\<lambda>c. \<not> touches L c0 c) new'"
      by (intro exI [of _ "old @ new"]) simp
    have "around_closed L c0 h (Suc (pos s))
            (s\<lparr>top' := top' s - 1, tn := tn s @ new, steps := steps s + 1\<rparr>)"
      unfolding around_closed_def div4_2 [OF k]
      using True e rest fl hist by (simp add: min_def)
    with v show ?thesis by simp
  next
    case False
    with g have "\<not> top' s - 1 > fst c0" by simp
    then have v: "cb_visit E L C (Some (site_box c0)) (CHR ''t'') s
            = (Inr (), s\<lparr>reached_stop := dict_set (CHR ''t'') True (reached_stop s)\<rparr>)"
      unfolding cb_visit_t by (simp add: site_box_def)
    have "around_closed L c0 h (Suc (pos s))
            (s\<lparr>reached_stop := dict_set (CHR ''t'') True (reached_stop s)\<rparr>)"
      unfolding around_closed_def div4_2 [OF k]
      using False e rest fl old by (auto simp: min_def)
    with v show ?thesis by simp
  qed
qed

lemma closed_step_r:
  assumes "engine_ok E" and "tags_ok L" and "distinct (site_tags L)" and "in_lattice L c0"
    and cl: "around_closed L c0 h (pos s) s" and k: "pos s mod 4 = 3"
  shows "\<exists>s'. cb_visit E L C (Some (site_box c0)) (CHR ''r'') s = (Inr (), s')
            \<and> pos s' = pos s \<and> around_closed L c0 h (Suc (pos s)) s'"
proof -
  note b = closed_bounds [OF cl assms(4)]
  from cl have e: "right s = int (Ly L) - 1 - int (min (need_r L c0) (pos s div 4))"
    and rest: "bottom s = int (min (need_b c0) ((pos s + 3) div 4))"
      "top' s = int (Lx L) - 1 - int (min (need_t L c0) ((pos s + 1) div 4))"
      "left s = int (min (need_l c0) ((pos s + 2) div 4))"
    and fl: "reached_stop s =
          [(CHR ''b'', need_b c0 < (pos s + 3) div 4), (CHR ''l'', need_l c0 < (pos s + 2) div 4),
           (CHR ''t'', need_t L c0 < (pos s + 1) div 4), (CHR ''r'', need_r L c0 < pos s div 4)]"
    unfolding around_closed_def by simp_all
  from cl obtain old where old: "tn s = h @ old" "list_all (\<lambda>c. \<not> touches L c0 c) old"
    unfolding around_closed_def by blast
  have g: "right s - 1 > snd c0 \<longleftrightarrow> pos s div 4 < need_r L c0"
    unfolding e need_r_def by (rule adv_high)
  show ?thesis
  proof (cases "pos s div 4 < need_r L c0")
    case True
    with g have guard: "right s - 1 > snd c0" by simp
    then have "case Some (site_box c0) of None \<Rightarrow> True | Some r \<Rightarrow> right s - 1 > stop_j_max r"
      by (simp add: site_box_def)
    from visit_r_absorb [OF assms(1,2) this, of C]
    obtain new where v: "cb_visit E L C (Some (site_box c0)) (CHR ''r'') s
            = (Inr (), s\<lparr>right := right s - 1, tn := tn s @ new, steps := steps s + 1\<rparr>)"
      and w: "list_all (call_within L (in_box (bottom s, top' s) (right s, right s - 1))) new"
      by blast
    have "list_all (\<lambda>c. \<not> touches L c0 c) new"
      by (rule list_within_avoid [OF w _ assms(4,3)])
         (use b guard in \<open>auto simp: in_box_def in_lattice_def min_of_def max_of_def\<close>)
    with old have hist: "\<exists>new'. tn s @ new = h @ new' \<and> list_all (\<lambda>c. \<not> touches L c0 c) new'"
      by (intro exI [of _ "old @ new"]) simp
    have "around_closed L c0 h (Suc (pos s))
            (s\<lparr>right := right s - 1, tn := tn s @ new, steps := steps s + 1\<rparr>)"
      unfolding around_closed_def div4_3 [OF k]
      using True e rest fl hist by (simp add: min_def)
    with v show ?thesis by simp
  next
    case False
    with g have "\<not> right s - 1 > snd c0" by simp
    then have v: "cb_visit E L C (Some (site_box c0)) (CHR ''r'') s
            = (Inr (), s\<lparr>reached_stop := dict_set (CHR ''r'') True (reached_stop s)\<rparr>)"
      unfolding cb_visit_r by (simp add: site_box_def)
    have "around_closed L c0 h (Suc (pos s))
            (s\<lparr>reached_stop := dict_set (CHR ''r'') True (reached_stop s)\<rparr>)"
      unfolding around_closed_def div4_3 [OF k]
      using False e rest fl old by (auto simp: min_def)
    with v show ?thesis by simp
  qed
qed

lemma closed_visit:
  assumes "engine_ok E" and "tags_ok L" and "distinct (site_tags L)" and "in_lattice L c0"
    and "around_closed L c0 h (pos s) s" and "sequence C = ''bltr''"
  shows "\<exists>s'. cb_visit E L C (Some (site_box c0))
                 (sequence C ! (pos s mod length (sequence C))) s = (Inr (), s')
            \<and> pos s' = pos s \<and> around_closed L c0 h (Suc (pos s)) s'"
proof -
  have "pos s mod 4 = 0 \<or> pos s mod 4 = 1 \<or> pos s mod 4 = 2 \<or> pos s mod 4 = 3"
    by presburger
  then show ?thesis
  proof (elim disjE)
    assume k: "pos s mod 4 = 0"
    from closed_step_b [OF assms(1-5) k, of C] show ?thesis
      by (simp add: assms(6) k)
  next
    assume k: "pos s mod 4 = 1"
    from closed_step_l [OF assms(1-5) k, of C] show ?thesis
      by (simp add: assms(6) k)
  next
    assume k: "pos s mod 4 = 2"
    from closed_step_t [OF assms(1-5) k, of C] show ?thesis
      by (simp add: assms(6) k)
  next
    assume k: "pos s mod 4 = 3"
    from closed_step_r [OF assms(1-5) k, of C] show ?thesis
      by (simp add: assms(6) k)
  qed
qed

lemma around_closed_pos:
  "around_closed L c0 h k (s\<lparr>pos := p\<rparr>) = around_closed L c0 h k s"
  by (simp add: around_closed_def)

lemma closed_cb_step:
  assumes "engine_ok E" and "tags_ok L" and "distinct (site_tags L)" and "in_lattice L c0"
    and "around_closed L c0 h (pos s) s" and "sequence C = ''bltr''"
  shows "\<exists>s'. around_closed L c0 h (Suc (pos s)) s'
          \<and> (if list_all snd (reached_stop s')
              then cb_step E L C (Some (site_box c0)) s = Stop (Inr (RNetwork (tn s'))) s'
              else cb_step E L C (Some (site_box c0)) s = Continue (s'\<lparr>pos := Suc (pos s)\<rparr>))"
proof -
  from closed_visit [OF assms] obtain s' where
    v: "cb_visit E L C (Some (site_box c0)) (sequence C ! (pos s mod length (sequence C))) s
          = (Inr (), s')"
    and p: "pos s' = pos s" and c: "around_closed L c0 h (Suc (pos s)) s'"
    by blast
  have ne: "sequence C \<noteq> []" by (simp add: assms(6))
  show ?thesis
    using c p unfolding cb_step_unfold [OF ne v]
    by (intro exI [of _ s']) simp
qed

lemma flags_full:
  assumes "around_closed L c0 h k s" and "4 * Suc m \<le> k"
    and "need_b c0 \<le> m" and "need_l c0 \<le> m" and "need_t L c0 \<le> m" and "need_r L c0 \<le> m"
  shows "list_all snd (reached_stop s)"
proof -
  from assms(2) have "Suc m \<le> k div 4" "Suc m \<le> (k + 1) div 4" "Suc m \<le> (k + 2) div 4"
    "Suc m \<le> (k + 3) div 4"
    by presburger+
  with assms(1,3-6) show ?thesis
    unfolding around_closed_def by simp
qed

lemma around_loop:
  assumes "engine_ok E" and "tags_ok L" and "distinct (site_tags L)" and "in_lattice L c0"
    and "sequence C = ''bltr''"
    and "need_b c0 \<le> m" and "need_l c0 \<le> m" and "need_t L c0 \<le> m" and "need_r L c0 \<le> m"
    and "around_closed L c0 h (pos s) s" and "4 * Suc m \<le> pos s + n"
  shows "\<exists>N s' k. cb_loop N E L C (Some (site_box c0)) s = Some (Inr (RNetwork (tn s')), s')
           \<and> around_closed L c0 h k s' \<and> list_all snd (reached_stop s')"
  using assms(10,11)
proof (induction n arbitrary: s)
  case 0
  from closed_cb_step [OF assms(1-4) 0(1) assms(5)] obtain s' where
    c: "around_closed L c0 h (Suc (pos s)) s'"
    and st: "if list_all snd (reached_stop s')
              then cb_step E L C (Some (site_box c0)) s = Stop (Inr (RNetwork (tn s'))) s'
              else cb_step E L C (Some (site_box c0)) s = Continue (s'\<lparr>pos := Suc (pos s)\<rparr>)"
    by blast
  from 0(2) have "4 * Suc m \<le> Suc (pos s)" by simp
  from flags_full [OF c this assms(6-9)] have f: "list_all snd (reached_stop s')" .
  with st have "cb_loop (Suc 0) E L C (Some (site_box c0)) s = Some (Inr (RNetwork (tn s')), s')"
    by simp
  with c f show ?case by blast
next
  case (Suc n)
  from closed_cb_step [OF assms(1-4) Suc.prems(1) assms(5)] obtain s' where
    c: "around_closed L c0 h (Suc (pos s)) s'"
    and st: "if list_all snd (reached_stop s')
              then cb_step E L C (Some (site_box c0)) s = Stop (Inr (RNetwork (tn s'))) s'
              else cb_step E L C (Some (site_box c0)) s = Continue (s'\<lparr>pos := Suc (pos s)\<rparr>)"
    by blast
  show ?case
  proof (cases "list_all snd (reached_stop s')")
    case True
    with st have "cb_loop (Suc 0) E L C (Some (site_box c0)) s = Some (Inr (RNetwork (tn s')), s')"
      by simp
    with c True show ?thesis by blast
  next
    case False
    let ?s = "s'\<lparr>pos := Suc (pos s)\<rparr>"
    from False st have step: "cb_step E L C (Some (site_box c0)) s = Continue ?s" by simp
    have c': "around_closed L c0 h (pos ?s) ?s"
      using c by (simp add: around_closed_pos)
    have "4 * Suc m \<le> pos ?s + n" using Suc.prems(2) by simp
    from Suc.IH [OF c' this] obtain N s'' k where
      l: "cb_loop N E L C (Some (site_box c0)) ?s = Some (Inr (RNetwork (tn s'')), s'')"
      and r: "around_closed L c0 h k s''" "list_all snd (reached_stop s'')"
      by blast
    from step l have "cb_loop (Suc N) E L C (Some (site_box c0)) s
        = Some (Inr (RNetwork (tn s'')), s'')" by simp
    with r show ?thesis by blast
  qed
qed

lemma final_frontier:
  assumes "around_closed L c0 h k s" and "list_all snd (reached_stop s)" and "in_lattice L c0"
  shows "bottom s = max 0 (fst c0 - 1)" "top' s = min (int (Lx L) - 1) (fst c0 + 1)"
    "left s = max 0 (snd c0 - 1)" "right s = min (int (Ly L) - 1) (snd c0 + 1)"
proof -
  from assms(1,2) have f: "need_b c0 < (k + 3) div 4" "need_l c0 < (k + 2) div 4"
    "need_t L c0 < (k + 1) div 4" "need_r L c0 < k div 4"
    unfolding around_closed_def by simp_all
  from assms(1) have e: "bottom s = int (min (need_b c0) ((k + 3) div 4))"
    "top' s = int (Lx L) - 1 - int (min (need_t L c0) ((k + 1) div 4))"
    "left s = int (min (need_l c0) ((k + 2) div 4))"
    "right s = int (Ly L) - 1 - int (min (need_r L c0) (k div 4))"
    unfolding around_closed_def by blast+
  from assms(3) have c: "0 \<le> fst c0" "fst c0 < int (Lx L)" "0 \<le> snd c0" "snd c0 < int (Ly L)"
    by (simp_all add: in_lattice_def)
  show "bottom s = max 0 (fst c0 - 1)"
    using f(1) c unfolding e(1) need_b_def by (simp add: min_def max_def)
  show "top' s = min (int (Lx L) - 1) (fst c0 + 1)"
    using f(3) c unfolding e(2) need_t_def by (simp add: min_def)
  show "left s = max 0 (snd c0 - 1)"
    using f(2) c unfolding e(3) need_l_def by (simp add: min_def max_def)
  show "right s = min (int (Ly L) - 1) (snd c0 + 1)"
    using f(4) c unfolding e(4) need_r_def by (simp add: min_def)
qed

lemma init_closed:
  assumes "sequence C = ''bltr''"
    and "bottom0 C = None" and "top0 C = None" and "left0 C = None" and "right0 C = None"
  shows "around_closed L c0 h (pos (cb_init L C h)) (cb_init L C h)"
  using assms by (simp add: around_closed_def cb_init_def)

text \<open>
  Claim C2, as amended. On an engine that never raises, for a site \<open>(i0, j0)\<close> of the
  lattice given as the only coordinate of \<^verbatim>\<open>around\<close>, the default sequence and the
  default starting frontier, \<^verbatim>\<open>contract_boundary\<close> terminates and returns the network;
  every stop flag is set, and the frontier stands at
  \<open>bottom = max 0 (i0 - 1)\<close>, \<open>top = min (Lx - 1) (i0 + 1)\<close>, \<open>left = max 0 (j0 - 1)\<close>,
  \<open>right = min (Ly - 1) (j0 + 1)\<close>: one step away from the site on every side where
  the lattice has a line beyond it, hence \<open>i0 - 1\<close>, \<open>i0 + 1\<close>, \<open>j0 - 1\<close>, \<open>j0 + 1\<close> for
  a site in the interior. No call made to the engine names the site \<open>(i0, j0)\<close> (site
  tags being distinct), so its tensor is still there, uncontracted.
\<close>

theorem protected_site_frontier:
  assumes "engine_ok E" and "tags_ok L" and "distinct (site_tags L)"
    and "in_lattice L (i0, j0)"
    and "around C = Some [(i0, j0)]" and "sequence C = ''bltr''"
    and "bottom0 C = None" and "top0 C = None" and "left0 C = None" and "right0 C = None"
  shows "\<exists>N s. contract_boundary N E L C h
                 = Some (Inr (RNetwork (tn s)), if inplace C then tn s else h)
           \<and> cb_loop N E L C (Some (site_box (i0, j0))) (cb_init L C h)
                 = Some (Inr (RNetwork (tn s)), s)
           \<and> list_all snd (reached_stop s)
           \<and> bottom s = max 0 (i0 - 1) \<and> top' s = min (int (Lx L) - 1) (i0 + 1)
           \<and> left s = max 0 (j0 - 1) \<and> right s = min (int (Ly L) - 1) (j0 + 1)
           \<and> (1 \<le> i0 \<and> i0 \<le> int (Lx L) - 2 \<and> 1 \<le> j0 \<and> j0 \<le> int (Ly L) - 2 \<longrightarrow>
                bottom s = i0 - 1 \<and> top' s = i0 + 1 \<and> left s = j0 - 1 \<and> right s = j0 + 1)
           \<and> (\<exists>new. tn s = h @ new \<and> list_all (\<lambda>c. \<not> touches L (i0, j0) c) new)"
proof -
  let ?c0 = "(i0, j0)" and ?s0 = "cb_init L C h"
  define m where "m = max (max (need_b ?c0) (need_l ?c0)) (max (need_t L ?c0) (need_r L ?c0))"
  have needs: "need_b ?c0 \<le> m" "need_l ?c0 \<le> m" "need_t L ?c0 \<le> m" "need_r L ?c0 \<le> m"
    unfolding m_def by simp_all
  have c0: "around_closed L ?c0 h (pos ?s0) ?s0"
    by (rule init_closed [OF assms(6-10)])
  have "4 * Suc m \<le> pos ?s0 + 4 * Suc m" by simp
  from around_loop [OF assms(1-4,6) needs c0 this]
  obtain N s k where loop: "cb_loop N E L C (Some (site_box ?c0)) ?s0
                 = Some (Inr (RNetwork (tn s)), s)"
    and cl: "around_closed L ?c0 h k s" and fl: "list_all snd (reached_stop s)"
    by blast
  have stops: "cb_stops C = Inr (Some (site_box ?c0))"
    by (simp add: cb_stops_def assms(5) stop_region_def site_box_def)
  have cb: "contract_boundary N E L C h
                 = Some (Inr (RNetwork (tn s)), if inplace C then tn s else h)"
    using loop by (simp add: contract_boundary_def stops)
  note fr = final_frontier [OF cl fl assms(4), simplified]
  have interior: "bottom s = i0 - 1 \<and> top' s = i0 + 1 \<and> left s = j0 - 1 \<and> right s = j0 + 1"
    if "1 \<le> i0 \<and> i0 \<le> int (Lx L) - 2 \<and> 1 \<le> j0 \<and> j0 \<le> int (Ly L) - 2"
    using that fr by simp
  from cl have hist: "\<exists>new. tn s = h @ new \<and> list_all (\<lambda>c. \<not> touches L ?c0 c) new"
    unfolding around_closed_def by blast
  from cb loop fl fr interior hist show ?thesis by blast
qed

theorem protected_site_frontier_counterexample:
  "cb_stops (cb_default\<lparr>around := Some [(0, 0)]\<rparr>) = Inr (Some (site_box (0, 0)))
   \<and> map_option (\<lambda>(r, s). (frontier_of s, list_all snd (reached_stop s)))
       (cb_loop 20 quiet_engine (peps_lattice 3 3) (cb_default\<lparr>around := Some [(0, 0)]\<rparr>)
          (Some (site_box (0, 0)))
          (cb_init (peps_lattice 3 3) (cb_default\<lparr>around := Some [(0, 0)]\<rparr>) []))
       = Some ((0, 1, 0, 1), True)
   \<and> (0 :: int) \<noteq> 0 - 1"
  by code_simp

theorem protected_site_frontier_witness:
  "engine_ok quiet_engine \<and> tags_ok (peps_lattice 5 5) \<and> distinct (site_tags (peps_lattice 5 5))
   \<and> in_lattice (peps_lattice 5 5) (2, 2)
   \<and> (\<exists>N s. contract_boundary N quiet_engine (peps_lattice 5 5)
                 (cb_default\<lparr>around := Some [(2, 2)]\<rparr>) []
               = Some (Inr (RNetwork (tn s)), [])
          \<and> frontier_of s = (1, 3, 1, 3)
          \<and> list_all (\<lambda>c. \<not> touches (peps_lattice 5 5) (2, 2) c) (tn s))
   \<and> map_option (\<lambda>(r, s). (frontier_of s, steps s))
       (cb_loop 20 quiet_engine (peps_lattice 5 5) (cb_default\<lparr>around := Some [(2, 2)]\<rparr>)
          (Some (site_box (2, 2)))
          (cb_init (peps_lattice 5 5) (cb_default\<lparr>around := Some [(2, 2)]\<rparr>) []))
       = Some ((1, 3, 1, 3), 4)"
proof -
  let ?L = "peps_lattice 5 5" and ?C = "cb_default\<lparr>around := Some [(2, 2)]\<rparr>"
  have t: "tags_ok ?L" by (rule peps_lattice_tags_ok) simp_all
  have d: "distinct (site_tags ?L)" by code_simp
  have i: "in_lattice ?L (2, 2)" by code_simp
  have c: "around ?C = Some [(2, 2)]" "sequence ?C = ''bltr''" "bottom0 ?C = None"
    "top0 ?C = None" "left0 ?C = None" "right0 ?C = None" "\<not> inplace ?C"
    by (simp_all add: cb_default_def)
  have e: "map_option (\<lambda>(r, s). (frontier_of s, steps s))
       (cb_loop 20 quiet_engine ?L ?C (Some (site_box (2, 2))) (cb_init ?L ?C []))
       = Some ((1, 3, 1, 3), 4)"
    by code_simp
  from protected_site_frontier [OF quiet_engine_ok t d i c(1-6), of "[]"]
  obtain N s where r: "contract_boundary N quiet_engine ?L ?C []
                 = Some (Inr (RNetwork (tn s)), if inplace ?C then tn s else [])
           \<and> cb_loop N quiet_engine ?L ?C (Some (site_box (2, 2))) (cb_init ?L ?C [])
                 = Some (Inr (RNetwork (tn s)), s)
           \<and> list_all snd (reached_stop s)
           \<and> bottom s = max 0 (2 - 1) \<and> top' s = min (int (Lx ?L) - 1) (2 + 1)
           \<and> left s = max 0 (2 - 1) \<and> right s = min (int (Ly ?L) - 1) (2 + 1)
           \<and> (1 \<le> (2 :: int) \<and> 2 \<le> int (Lx ?L) - 2 \<and> 1 \<le> (2 :: int) \<and> 2 \<le> int (Ly ?L) - 2 \<longrightarrow>
                bottom s = 2 - 1 \<and> top' s = 2 + 1 \<and> left s = 2 - 1 \<and> right s = 2 + 1)
           \<and> (\<exists>new. tn s = [] @ new \<and> list_all (\<lambda>c. \<not> touches ?L (2, 2) c) new)"
    by (elim exE) (rule that)
  then have "contract_boundary N quiet_engine ?L ?C [] = Some (Inr (RNetwork (tn s)), [])
          \<and> frontier_of s = (1, 3, 1, 3)
          \<and> list_all (\<lambda>c. \<not> touches ?L (2, 2) c) (tn s)"
    using c(7) by (simp add: frontier_of_def peps_lattice_def)
  then have "\<exists>N s. contract_boundary N quiet_engine ?L ?C [] = Some (Inr (RNetwork (tn s)), [])
          \<and> frontier_of s = (1, 3, 1, 3)
          \<and> list_all (\<lambda>c. \<not> touches ?L (2, 2) c) (tn s)"
    by blast
  with quiet_engine_ok t d i e show ?thesis by blast
qed

end
